theory Spec2Isabelle
  imports Main "HOL-Library.Sublist" "HOL-Library.Multiset"
begin

section \<open>Data model\<close>

text \<open>
  A JavaScript value: \<open>undefined\<close>, or a value of the type \<open>'v\<close> (a string, a number, an
  array of ids, a function).
\<close>

datatype 'v jsval = Undefined | Val 'v

text \<open>
  A payload is an object: \<open>own\<close> are its own properties, \<open>inherited\<close> the properties it
  finds on its prototype chain (for an object literal those of \<open>Object.prototype\<close>:
  \<open>constructor\<close>, \<open>toString\<close>, \<open>valueOf\<close> and others). The property read \<open>hash[name]\<close>
  gives the own property when there is one, else the inherited one, else \<open>undefined\<close>.
\<close>

record 'v hash =
  own :: "string \<rightharpoonup> 'v jsval"
  inherited :: "string \<rightharpoonup> 'v jsval"

definition hash_get :: "'v hash \<Rightarrow> string \<Rightarrow> 'v jsval" where
  "hash_get hash name =
     (case own hash name of
        Some v \<Rightarrow> v
      | None \<Rightarrow> (case inherited hash name of Some v \<Rightarrow> v | None \<Rightarrow> Undefined))"

text \<open>
  A record type (the record's \<open>constructor\<close>). \<open>type_guid\<close> is the identity of the class
  object, \<open>attributes\<close> is what \<open>record.eachAttribute\<close> enumerates (name and attribute
  metadata, in order), \<open>associationsByName\<close> is the ordered map from association name to
  its metadata, of which the adapter reads \<open>meta.kind\<close>.
\<close>

record assoc_meta =
  kind :: string

record record_type =
  type_guid :: nat
  attributes :: "(string \<times> string) list"
  associationsByName :: "(string \<times> assoc_meta) list"

text \<open>
  A record: \<open>guid\<close> is the identity of the object, \<open>isDirty\<close> is \<open>record.get('isDirty')\<close>.
\<close>

record 'v model =
  guid :: nat
  constructor :: record_type
  isDirty :: bool
  ident :: "'v jsval"
  field_values :: "string \<rightharpoonup> 'v jsval"

record 'v commitDetails =
  created :: "'v model list"
  updated :: "'v model list"
  deleted :: "'v model list"

section \<open>Effects\<close>

text \<open>
  The adapter's methods return nothing; what they do is call other methods. A call to a
  method that a concrete adapter or the store supplies (\<open>find\<close> is \<open>null\<close> in the base
  class, \<open>createRecord\<close>, \<open>updateRecord\<close> and \<open>deleteRecord\<close> are not defined there) is
  recorded as an event, in the order the calls are made. \<open>commit\<close> calls the batched
  methods and \<open>shouldCommit\<close> through \<open>this\<close>, so what runs is the adapter's own version, the
  default or an override: these calls are recorded as events too. The batched methods
  receive an array by reference: the event holds the array's address in the heap of arrays.
\<close>

type_synonym addr = nat

datatype ('st, 'v, 'rel) call =
    Find 'st record_type 'v
  | CreateRecord 'st record_type "'v model"
  | UpdateRecord 'st record_type "'v model"
  | DeleteRecord 'st record_type "'v model"
  | CreateRecords 'st record_type addr
  | UpdateRecords 'st record_type addr
  | DeleteRecords 'st record_type addr
  | ShouldCommit "'v model" 'rel
  | DidUpdateRecord 'st "'v model"

record ('st, 'v, 'rel) world =
  calls :: "('st, 'v, 'rel) call list"
  heap :: "'v model list list"

definition emit :: "('st, 'v, 'rel) call \<Rightarrow> ('st, 'v, 'rel) world \<Rightarrow> ('st, 'v, 'rel) world" where
  "emit c w = w\<lparr>calls := calls w @ [c]\<rparr>"

text \<open>\<open>enumerable.forEach(callback)\<close>: the callback runs on each item in order.\<close>

fun forEach :: "('a \<Rightarrow> 's \<Rightarrow> 's) \<Rightarrow> 'a list \<Rightarrow> 's \<Rightarrow> 's" where
  "forEach f [] s = s"
| "forEach f (x # xs) s = forEach f xs (f x s)"

subsection \<open>Arrays\<close>

text \<open>
  \<open>Ember.A()\<close> allocates a new empty array, \<open>pushObject\<close> appends to an array in place,
  \<open>slice()\<close> allocates a new array with the same items.
\<close>

definition array_at :: "('st, 'v, 'rel) world \<Rightarrow> addr \<Rightarrow> 'v model list" where
  "array_at w a = (if a < length (heap w) then heap w ! a else [])"

definition new_array :: "('st, 'v, 'rel) world \<Rightarrow> addr \<times> ('st, 'v, 'rel) world" where
  "new_array w = (length (heap w), w\<lparr>heap := heap w @ [[]]\<rparr>)"

definition pushObject :: "addr \<Rightarrow> 'v model \<Rightarrow> ('st, 'v, 'rel) world \<Rightarrow> ('st, 'v, 'rel) world" where
  "pushObject a x w = w\<lparr>heap := (heap w)[a := array_at w a @ [x]]\<rparr>"

definition slice :: "addr \<Rightarrow> ('st, 'v, 'rel) world \<Rightarrow> addr \<times> ('st, 'v, 'rel) world" where
  "slice a w = (length (heap w), w\<lparr>heap := heap w @ [array_at w a]\<rparr>)"

section \<open>The adapter\<close>

subsection \<open>Default batched methods\<close>

definition createRecords ::
  "'st \<Rightarrow> record_type \<Rightarrow> 'v model list \<Rightarrow> ('st, 'v, 'rel) world \<Rightarrow> ('st, 'v, 'rel) world" where
  "createRecords store type records w =
     forEach (\<lambda>record. emit (CreateRecord store type record)) records w"

definition updateRecords ::
  "'st \<Rightarrow> record_type \<Rightarrow> 'v model list \<Rightarrow> ('st, 'v, 'rel) world \<Rightarrow> ('st, 'v, 'rel) world" where
  "updateRecords store type records w =
     forEach (\<lambda>record. emit (UpdateRecord store type record)) records w"

definition deleteRecords ::
  "'st \<Rightarrow> record_type \<Rightarrow> 'v model list \<Rightarrow> ('st, 'v, 'rel) world \<Rightarrow> ('st, 'v, 'rel) world" where
  "deleteRecords store type records w =
     forEach (\<lambda>record. emit (DeleteRecord store type record)) records w"

definition findMany ::
  "'st \<Rightarrow> record_type \<Rightarrow> 'v list \<Rightarrow> ('st, 'v, 'rel) world \<Rightarrow> ('st, 'v, 'rel) world" where
  "findMany store type ids w = forEach (\<lambda>id. emit (Find store type id)) ids w"

subsection \<open>Grouping by type\<close>

text \<open>
  \<open>Ember.MapWithDefault\<close>: the keys in insertion order, each with the address of its
  array. \<open>get\<close> of a key that is absent creates the default value (a new empty array),
  stores it under the key and returns it.
\<close>

type_synonym ember_map = "(record_type \<times> addr) list"

definition map_get ::
  "record_type \<Rightarrow> ember_map \<Rightarrow> ('st, 'v, 'rel) world \<Rightarrow> addr \<times> ember_map \<times> ('st, 'v, 'rel) world" where
  "map_get key m w =
     (case map_of m key of
        Some a \<Rightarrow> (a, m, w)
      | None \<Rightarrow> (let (a, w') = new_array w in (a, m @ [(key, a)], w')))"

definition groupByType_step ::
  "'v model \<Rightarrow> ember_map \<times> ('st, 'v, 'rel) world \<Rightarrow> ember_map \<times> ('st, 'v, 'rel) world" where
  "groupByType_step item mw =
     (let (a, m', w') = map_get (constructor item) (fst mw) (snd mw)
      in (m', pushObject a item w'))"

definition groupByType ::
  "'v model list \<Rightarrow> ('st, 'v, 'rel) world \<Rightarrow> ember_map \<times> ('st, 'v, 'rel) world" where
  "groupByType enumerable w = forEach groupByType_step enumerable ([], w)"

subsection \<open>Commit\<close>

definition shouldCommit :: "'v model \<Rightarrow> 'rel \<Rightarrow> bool" where
  "shouldCommit record relationships = True"

text \<open>
  The callback of the loop over \<open>commitDetails.updated\<close>. \<open>sc\<close> is the adapter's
  \<open>shouldCommit\<close> (the default above, or an override), \<open>arr\<close> the local array \<open>updated\<close>.
\<close>

definition commit_updated_step ::
  "('v model \<Rightarrow> 'rel \<Rightarrow> bool) \<Rightarrow> 'st \<Rightarrow> 'rel \<Rightarrow> addr \<Rightarrow> 'v model
     \<Rightarrow> ('st, 'v, 'rel) world \<Rightarrow> ('st, 'v, 'rel) world" where
  "commit_updated_step sc store relationships arr record w =
     (if \<not> isDirty record then
        (let w1 = emit (ShouldCommit record relationships) w in
         if \<not> sc record relationships then emit (DidUpdateRecord store record) w1
         else pushObject arr record w1)
      else pushObject arr record w)"

text \<open>
  The callback of the loops over the groups: \<open>this.createRecords(store, type, array.slice())\<close>
  and its two siblings, \<open>method\<close> being the batched method called.
\<close>

definition batch_step ::
  "('st \<Rightarrow> record_type \<Rightarrow> addr \<Rightarrow> ('st, 'v, 'rel) call) \<Rightarrow> 'st \<Rightarrow> record_type \<times> addr
     \<Rightarrow> ('st, 'v, 'rel) world \<Rightarrow> ('st, 'v, 'rel) world" where
  "batch_step method store ta w =
     (let (copy, w') = slice (snd ta) w in emit (method store (fst ta) copy) w')"

text \<open>
  \<open>commit\<close>, returning with the final world the arrays it keeps to itself: the address of
  \<open>updated\<close> and the three groupings.
\<close>

definition commit_internal ::
  "('v model \<Rightarrow> 'rel \<Rightarrow> bool) \<Rightarrow> 'st \<Rightarrow> 'v commitDetails \<Rightarrow> 'rel \<Rightarrow> ('st, 'v, 'rel) world
     \<Rightarrow> (addr \<times> ember_map \<times> ember_map \<times> ember_map) \<times> ('st, 'v, 'rel) world" where
  "commit_internal sc store commitDetails relationships w =
     (let (arr, w1) = new_array w;
          w2 = forEach (commit_updated_step sc store relationships arr) (updated commitDetails) w1;
          (mc, w3) = groupByType (created commitDetails) w2;
          w4 = forEach (batch_step CreateRecords store) mc w3;
          (mu, w5) = groupByType (array_at w4 arr) w4;
          w6 = forEach (batch_step UpdateRecords store) mu w5;
          (md, w7) = groupByType (deleted commitDetails) w6;
          w8 = forEach (batch_step DeleteRecords store) md w7
      in ((arr, mc, mu, md), w8))"

definition commit ::
  "('v model \<Rightarrow> 'rel \<Rightarrow> bool) \<Rightarrow> 'st \<Rightarrow> 'v commitDetails \<Rightarrow> 'rel \<Rightarrow> ('st, 'v, 'rel) world
     \<Rightarrow> ('st, 'v, 'rel) world" where
  "commit sc store commitDetails relationships w =
     snd (commit_internal sc store commitDetails relationships w)"

text \<open>The calls made between two worlds.\<close>

definition new_calls :: "('st, 'v, 'rel) world \<Rightarrow> ('st, 'v, 'rel) world \<Rightarrow> ('st, 'v, 'rel) call list" where
  "new_calls w w' = drop (length (calls w)) (calls w')"

subsection \<open>Materialization\<close>

text \<open>
  \<open>materialize\<close> and its helpers return nothing either: they call the record's own
  \<open>materializeId\<close>, \<open>materializeAttribute\<close>, \<open>materializeHasMany\<close> and
  \<open>materializeBelongsTo\<close>. Each such call is recorded with its arguments, in order.
\<close>

datatype 'v record_call =
    MaterializeId "'v jsval"
  | MaterializeAttribute string "'v jsval"
  | MaterializeHasMany string "'v jsval"
  | MaterializeBelongsTo string "'v jsval"

definition send :: "'v record_call \<Rightarrow> 'v record_call list \<Rightarrow> 'v record_call list" where
  "send c tr = tr @ [c]"

definition extractId :: "record_type \<Rightarrow> 'v hash \<Rightarrow> 'v jsval" where
  "extractId type hash = hash_get hash ''id''"

definition materializeId :: "'v model \<Rightarrow> 'v hash \<Rightarrow> 'v record_call list \<Rightarrow> 'v record_call list" where
  "materializeId record hash tr = send (MaterializeId (extractId (constructor record) hash)) tr"

definition materializeAttribute ::
  "'v model \<Rightarrow> 'v hash \<Rightarrow> string \<Rightarrow> 'v record_call list \<Rightarrow> 'v record_call list" where
  "materializeAttribute record hash name tr = send (MaterializeAttribute name (hash_get hash name)) tr"

definition materializeAttributes ::
  "'v model \<Rightarrow> 'v hash \<Rightarrow> 'v record_call list \<Rightarrow> 'v record_call list" where
  "materializeAttributes record hash tr =
     forEach (\<lambda>na. materializeAttribute record hash (fst na)) (attributes (constructor record)) tr"

definition materializeHasMany ::
  "'v model \<Rightarrow> 'v hash \<Rightarrow> string \<Rightarrow> 'v record_call list \<Rightarrow> 'v record_call list" where
  "materializeHasMany record hash name tr = send (MaterializeHasMany name (hash_get hash name)) tr"

definition materializeBelongsTo ::
  "'v model \<Rightarrow> 'v hash \<Rightarrow> string \<Rightarrow> 'v record_call list \<Rightarrow> 'v record_call list" where
  "materializeBelongsTo record hash name tr = send (MaterializeBelongsTo name (hash_get hash name)) tr"

text \<open>The callback of the loop over \<open>associationsByName\<close>, given \<open>(name, meta)\<close>.\<close>

definition materialize_association ::
  "'v model \<Rightarrow> 'v hash \<Rightarrow> string \<times> assoc_meta \<Rightarrow> 'v record_call list \<Rightarrow> 'v record_call list" where
  "materialize_association record hash nm tr =
     (if kind (snd nm) = ''hasMany'' then materializeHasMany record hash (fst nm) tr
      else if kind (snd nm) = ''belongsTo'' then materializeBelongsTo record hash (fst nm) tr
      else tr)"

definition materialize :: "'v model \<Rightarrow> 'v hash \<Rightarrow> 'v record_call list \<Rightarrow> 'v record_call list" where
  "materialize record hash tr =
     (let tr1 = materializeId record hash tr;
          tr2 = materializeAttributes record hash tr1
      in forEach (materialize_association record hash) (associationsByName (constructor record)) tr2)"

subsection \<open>The record's side of materialization\<close>

text \<open>
  Modelled from the spec: the record's own methods \<open>materializeId\<close>,
  \<open>materializeAttribute\<close>, \<open>materializeHasMany\<close> and \<open>materializeBelongsTo\<close>; the class
  of records is not among the sources. The spec gives a Record an identifier (materialized
  lazily from a raw payload), a dirty flag, and a mapping from field name to current
  value, and says that it exposes setters for materializing raw field values onto itself:
  each call stores the value it is given, the identifier for \<open>materializeId\<close>, the
  field of that name for the other three.
\<close>

fun receive :: "'v model \<Rightarrow> 'v record_call \<Rightarrow> 'v model" where
  "receive r (MaterializeId v) = r\<lparr>ident := v\<rparr>"
| "receive r (MaterializeAttribute name v) = r\<lparr>field_values := (field_values r)(name \<mapsto> v)\<rparr>"
| "receive r (MaterializeHasMany name v) = r\<lparr>field_values := (field_values r)(name \<mapsto> v)\<rparr>"
| "receive r (MaterializeBelongsTo name v) = r\<lparr>field_values := (field_values r)(name \<mapsto> v)\<rparr>"

text \<open>The record after \<open>materialize(record, hash)\<close>.\<close>

definition materialized :: "'v model \<Rightarrow> 'v hash \<Rightarrow> 'v model" where
  "materialized record hash = foldl receive record (materialize record hash [])"

section \<open>Descriptions used in the proofs\<close>

text \<open>The calls one association gives rise to.\<close>

definition association_calls :: "'v hash \<Rightarrow> string \<times> assoc_meta \<Rightarrow> 'v record_call list" where
  "association_calls hash nm =
     (if kind (snd nm) = ''hasMany'' then [MaterializeHasMany (fst nm) (hash_get hash (fst nm))]
      else if kind (snd nm) = ''belongsTo'' then [MaterializeBelongsTo (fst nm) (hash_get hash (fst nm))]
      else [])"

text \<open>What a call to the record writes: a field, or the identifier.\<close>

fun field_write :: "'v record_call \<Rightarrow> (string \<times> 'v jsval) option" where
  "field_write (MaterializeId v) = None"
| "field_write (MaterializeAttribute name v) = Some (name, v)"
| "field_write (MaterializeHasMany name v) = Some (name, v)"
| "field_write (MaterializeBelongsTo name v) = Some (name, v)"

fun id_write :: "'v record_call \<Rightarrow> 'v jsval option" where
  "id_write (MaterializeId v) = Some v"
| "id_write _ = None"

text \<open>The distinct elements of a list, in the order of their first occurrence.\<close>

fun first_seen :: "'a list \<Rightarrow> 'a list" where
  "first_seen [] = []"
| "first_seen (x # xs) = x # removeAll x (first_seen xs)"

text \<open>
  Grouping as a list of pairs: the types in first-seen order, each with the items of that
  type in their order in the list.
\<close>

definition groups_of :: "'v model list \<Rightarrow> (record_type \<times> 'v model list) list" where
  "groups_of xs =
     map (\<lambda>t. (t, filter (\<lambda>x. constructor x = t) xs)) (first_seen (map constructor xs))"

text \<open>\<open>map.get(k).pushObject(x)\<close> on a grouping whose arrays are written out.\<close>

fun push_item :: "'k \<Rightarrow> 'a \<Rightarrow> ('k \<times> 'a list) list \<Rightarrow> ('k \<times> 'a list) list" where
  "push_item k x [] = [(k, [x])]"
| "push_item k x ((k', xs) # g) =
     (if k' = k then (k', xs @ [x]) # g else (k', xs) # push_item k x g)"

text \<open>A map with the contents of its arrays in a world.\<close>

definition view :: "('st, 'v, 'rel) world \<Rightarrow> ember_map \<Rightarrow> (record_type \<times> 'v model list) list" where
  "view w m = map (\<lambda>ta. (fst ta, array_at w (snd ta))) m"

text \<open>
  The invariant of the loop of \<open>groupByType\<close>, \<open>h0\<close> being the heap it started in: the
  keys are distinct, every key has an array of its own, allocated by the loop, and the
  arrays that were there before are as they were.
\<close>

definition group_inv :: "'v model list list \<Rightarrow> ember_map \<Rightarrow> ('st, 'v, 'rel) world \<Rightarrow> bool" where
  "group_inv h0 m w \<longleftrightarrow>
     distinct (map fst m) \<and> distinct (map snd m)
     \<and> (\<forall>a \<in> snd ` set m. length h0 \<le> a \<and> a < length (heap w))
     \<and> prefix h0 (heap w)"

text \<open>
  The records of \<open>commitDetails.updated\<close> after the filter: the dirty ones, and the clean
  ones for which \<open>shouldCommit\<close> answers true.
\<close>

definition kept :: "('v model \<Rightarrow> 'rel \<Rightarrow> bool) \<Rightarrow> 'rel \<Rightarrow> 'v model list \<Rightarrow> 'v model list" where
  "kept sc relationships xs = filter (\<lambda>r. isDirty r \<or> sc r relationships) xs"

text \<open>
  The calls the loop over \<open>commitDetails.updated\<close> makes for one item.
\<close>

definition filter_calls ::
  "('v model \<Rightarrow> 'rel \<Rightarrow> bool) \<Rightarrow> 'st \<Rightarrow> 'rel \<Rightarrow> 'v model \<Rightarrow> ('st, 'v, 'rel) call list" where
  "filter_calls sc store relationships r =
     (if isDirty r then []
      else if sc r relationships then [ShouldCommit r relationships]
      else [ShouldCommit r relationships, DidUpdateRecord store r])"

text \<open>
  A batched call with the contents of the array it was given.
\<close>

datatype ('st, 'v) batch =
    CreateBatch 'st record_type "'v model list"
  | UpdateBatch 'st record_type "'v model list"
  | DeleteBatch 'st record_type "'v model list"

fun batch_of :: "('st, 'v, 'rel) world \<Rightarrow> ('st, 'v, 'rel) call \<Rightarrow> ('st, 'v) batch option" where
  "batch_of w (CreateRecords s t a) = Some (CreateBatch s t (array_at w a))"
| "batch_of w (UpdateRecords s t a) = Some (UpdateBatch s t (array_at w a))"
| "batch_of w (DeleteRecords s t a) = Some (DeleteBatch s t (array_at w a))"
| "batch_of w _ = None"

text \<open>
  The address of the array a batched call was given.
\<close>

fun batch_addr :: "('st, 'v, 'rel) call \<Rightarrow> addr option" where
  "batch_addr (CreateRecords s t a) = Some a"
| "batch_addr (UpdateRecords s t a) = Some a"
| "batch_addr (DeleteRecords s t a) = Some a"
| "batch_addr _ = None"

text \<open>
  The batched calls among a list of calls, in order, their arrays read in the world \<open>w\<close>.
\<close>

definition batches :: "('st, 'v, 'rel) world \<Rightarrow> ('st, 'v, 'rel) call list \<Rightarrow> ('st, 'v) batch list" where
  "batches w cs = List.map_filter (batch_of w) cs"

text \<open>
  The batched calls of one loop over a grouping \<open>G\<close>: one per group, in order, the copies
  allocated one after the other from address \<open>n\<close> on.
\<close>

definition phase_calls ::
  "('st \<Rightarrow> record_type \<Rightarrow> addr \<Rightarrow> ('st, 'v, 'rel) call) \<Rightarrow> 'st \<Rightarrow> (record_type \<times> 'v model list) list
     \<Rightarrow> addr \<Rightarrow> ('st, 'v, 'rel) call list" where
  "phase_calls C store G n =
     map (\<lambda>tn. C store (fst tn) (snd tn)) (zip (map fst G) [n..<n + length G])"

text \<open>
  The type an \<open>updateRecords\<close> call was made for.
\<close>

fun updated_type :: "('st, 'v, 'rel) call \<Rightarrow> record_type option" where
  "updated_type (UpdateRecords s t a) = Some t"
| "updated_type _ = None"

section \<open>Examples\<close>

definition post_type :: record_type where
  "post_type = \<lparr>type_guid = 1, attributes = [(''title'', ''string'')],
     associationsByName = [(''comments'', \<lparr>kind = ''hasMany''\<rparr>),
       (''author'', \<lparr>kind = ''belongsTo''\<rparr>), (''tags'', \<lparr>kind = ''manyToMany''\<rparr>)]\<rparr>"

definition post_record :: "string model" where
  "post_record = \<lparr>guid = 7, constructor = post_type, isDirty = False, ident = Undefined,
     field_values = [''tags'' \<mapsto> Val ''old'']\<rparr>"

definition object_prototype :: "string \<rightharpoonup> string jsval" where
  "object_prototype = [''constructor'' \<mapsto> Val ''function Object'',
     ''toString'' \<mapsto> Val ''function toString'', ''valueOf'' \<mapsto> Val ''function valueOf'',
     ''hasOwnProperty'' \<mapsto> Val ''function hasOwnProperty'']"

definition post_hash :: "string hash" where
  "post_hash = \<lparr>own = [''id'' \<mapsto> Val ''42'', ''title'' \<mapsto> Val ''x'', ''tags'' \<mapsto> Val ''new''],
     inherited = object_prototype\<rparr>"

definition bare_hash :: "string hash" where
  "bare_hash = \<lparr>own = [''id'' \<mapsto> Val ''42''], inherited = object_prototype\<rparr>"

definition legacy_type :: record_type where
  "legacy_type = \<lparr>type_guid = 3, attributes = [(''toString'', ''string'')],
     associationsByName = []\<rparr>"

definition legacy_record :: "string model" where
  "legacy_record = \<lparr>guid = 8, constructor = legacy_type, isDirty = False, ident = Undefined,
     field_values = Map.empty\<rparr>"

definition clash_type :: record_type where
  "clash_type = \<lparr>type_guid = 4, attributes = [(''tags'', ''string'')],
     associationsByName = [(''tags'', \<lparr>kind = ''manyToMany''\<rparr>)]\<rparr>"

definition clash_record :: "string model" where
  "clash_record = \<lparr>guid = 9, constructor = clash_type, isDirty = False, ident = Undefined,
     field_values = [''tags'' \<mapsto> Val ''old'']\<rparr>"

definition comment_type :: record_type where
  "comment_type = \<lparr>type_guid = 2, attributes = [(''body'', ''string'')],
     associationsByName = [(''post'', \<lparr>kind = ''belongsTo''\<rparr>)]\<rparr>"

definition new_record :: "nat \<Rightarrow> record_type \<Rightarrow> bool \<Rightarrow> string model" where
  "new_record g t d = \<lparr>guid = g, constructor = t, isDirty = d, ident = Undefined,
     field_values = Map.empty\<rparr>"

definition empty_world :: "(unit, string, unit) world" where
  "empty_world = \<lparr>calls = [], heap = []\<rparr>"

definition example_sc :: "string model \<Rightarrow> unit \<Rightarrow> bool" where
  "example_sc r rel = (guid r \<noteq> 3)"

definition example_commit :: "string commitDetails" where
  "example_commit = \<lparr>created = [new_record 1 post_type True],
     updated = [new_record 2 post_type True, new_record 3 comment_type False,
       new_record 4 comment_type False],
     deleted = [new_record 5 post_type False]\<rparr>"

definition example_updates :: "string commitDetails" where
  "example_updates = \<lparr>created = [],
     updated = [new_record 2 post_type True, new_record 3 comment_type False,
       new_record 4 comment_type False],
     deleted = []\<rparr>"

definition example_committed :: "(unit, string, unit) world" where
  "example_committed = \<lparr>calls = [ShouldCommit (new_record 3 comment_type False) (),
       DidUpdateRecord () (new_record 3 comment_type False),
       ShouldCommit (new_record 4 comment_type False) (),
       CreateRecords () post_type 2, UpdateRecords () post_type 5,
       UpdateRecords () comment_type 6, DeleteRecords () post_type 8],
     heap = [[new_record 2 post_type True, new_record 4 comment_type False],
       [new_record 1 post_type True], [new_record 1 post_type True],
       [new_record 2 post_type True], [new_record 4 comment_type False],
       [new_record 2 post_type True], [new_record 4 comment_type False],
       [new_record 5 post_type False], [new_record 5 post_type False]]\<rparr>"

section \<open>Properties of the default batched methods\<close>

lemma forEach_append: "forEach f (xs @ ys) s = forEach f ys (forEach f xs s)"
  by (induction xs arbitrary: s) simp_all

lemma forEach_emit_calls: "calls (forEach (\<lambda>x. emit (g x)) xs w) = calls w @ map g xs"
  by (induction xs arbitrary: w) (simp_all add: emit_def)

lemma forEach_emit_heap: "heap (forEach (\<lambda>x. emit (g x)) xs w) = heap w"
  by (induction xs arbitrary: w) (simp_all add: emit_def)

text \<open>
  C7. The default \<open>findMany\<close> makes exactly one call to \<open>find\<close> per id, with the store,
  the type and the ids in the order of the list, and does nothing else: it makes no other
  call and leaves every array as it is.
\<close>

theorem findMany_calls_find_per_id:
  "new_calls w (findMany store type ids w) = map (Find store type) ids
   \<and> length (new_calls w (findMany store type ids w)) = length ids
   \<and> heap (findMany store type ids w) = heap w"
  by (simp add: findMany_def new_calls_def forEach_emit_calls forEach_emit_heap)

text \<open>
  C8. The default \<open>createRecords\<close>, \<open>updateRecords\<close> and \<open>deleteRecords\<close> each call the
  single-record method once per record, in the order of the list, and nothing else.
\<close>

theorem batched_defaults_call_per_record:
  "new_calls w (createRecords store type records w) = map (CreateRecord store type) records
   \<and> new_calls w (updateRecords store type records w) = map (UpdateRecord store type) records
   \<and> new_calls w (deleteRecords store type records w) = map (DeleteRecord store type) records
   \<and> new_calls w (createRecords store type [r1, r2] w)
       = [CreateRecord store type r1, CreateRecord store type r2]"
  by (simp add: createRecords_def updateRecords_def deleteRecords_def new_calls_def
      forEach_emit_calls del: forEach.simps)


section \<open>Properties of materialization\<close>

lemma forEach_sends: "(\<And>x tr. f x tr = tr @ g x) \<Longrightarrow> forEach f xs tr = tr @ concat (map g xs)"
  by (induction xs arbitrary: tr) simp_all

lemma materializeAttributes_calls:
  "materializeAttributes record hash tr
     = tr @ map (\<lambda>na. MaterializeAttribute (fst na) (hash_get hash (fst na))) (attributes (constructor record))"
proof -
  have "materializeAttributes record hash tr
      = tr @ concat (map (\<lambda>na. [MaterializeAttribute (fst na) (hash_get hash (fst na))]) (attributes (constructor record)))"
    unfolding materializeAttributes_def
    by (rule forEach_sends) (simp add: materializeAttribute_def send_def)
  then show ?thesis by (simp add: concat_map_singleton)
qed

lemma materialize_association_calls:
  "materialize_association record hash nm tr = tr @ association_calls hash nm"
  by (simp add: materialize_association_def association_calls_def materializeHasMany_def
      materializeBelongsTo_def send_def)

lemma materialize_calls:
  "materialize record hash tr
     = tr @ MaterializeId (extractId (constructor record) hash)
          # map (\<lambda>na. MaterializeAttribute (fst na) (hash_get hash (fst na))) (attributes (constructor record))
          @ concat (map (association_calls hash) (associationsByName (constructor record)))"
  unfolding materialize_def Let_def
  by (simp add: forEach_sends [where g = "association_calls hash"] materialize_association_calls
      materializeAttributes_calls materializeId_def send_def)

lemma constructor_receive: "constructor (receive r c) = constructor r"
  by (cases c) simp_all

lemma constructor_foldl_receive: "constructor (foldl receive r cs) = constructor r"
  by (induction cs arbitrary: r) (simp_all add: constructor_receive)

lemma map_filter_snoc:
  "List.map_filter f (xs @ [x]) = List.map_filter f xs @ (case f x of None \<Rightarrow> [] | Some y \<Rightarrow> [y])"
  by (induction xs) (simp_all split: option.splits)

lemma foldl_receive_fields:
  "field_values (foldl receive r cs) n
     = (case map_of (rev (List.map_filter field_write cs)) n of
          None \<Rightarrow> field_values r n | Some v \<Rightarrow> Some v)"
proof (induction cs rule: rev_induct)
  case Nil show ?case by simp
next
  case (snoc c cs)
  show ?case by (cases c) (simp_all add: snoc map_filter_snoc)
qed

lemma foldl_receive_ident:
  "ident (foldl receive r cs)
     = (case rev (List.map_filter id_write cs) of [] \<Rightarrow> ident r | v # _ \<Rightarrow> v)"
proof (induction cs rule: rev_induct)
  case Nil show ?case by simp
next
  case (snoc c cs)
  show ?case by (cases c) (simp_all add: snoc map_filter_snoc)
qed

lemma foldl_receive_frame:
  "guid (foldl receive r cs) = guid r \<and> constructor (foldl receive r cs) = constructor r
   \<and> isDirty (foldl receive r cs) = isDirty r \<and> model.more (foldl receive r cs) = model.more r"
proof (induction cs rule: rev_induct)
  case Nil show ?case by simp
next
  case (snoc c cs)
  show ?case by (cases c) (simp_all add: snoc)
qed

lemma foldl_receive_twice: "foldl receive (foldl receive r cs) cs = foldl receive r cs"
proof (rule model.equality)
  show "field_values (foldl receive (foldl receive r cs) cs) = field_values (foldl receive r cs)"
    by (rule ext) (simp add: foldl_receive_fields split: option.splits)
  show "ident (foldl receive (foldl receive r cs) cs) = ident (foldl receive r cs)"
    by (simp add: foldl_receive_ident split: list.splits)
qed (simp_all add: foldl_receive_frame)

lemma materialize_same_calls:
  "constructor r' = constructor r \<Longrightarrow> materialize r' hash tr = materialize r hash tr"
  by (simp add: materialize_calls)

text \<open>
  C6. Materializing a record twice with the same payload leaves it in the state the first
  materialization left it in: the identifier and every field are the same, and so is
  everything else of it.
\<close>

theorem materialize_idempotent:
  "materialized (materialized record hash) hash = materialized record hash"
proof -
  have "materialize (materialized record hash) hash [] = materialize record hash []"
    by (rule materialize_same_calls) (simp add: materialized_def foldl_receive_frame)
  then show ?thesis
    by (simp add: materialized_def foldl_receive_twice)
qed


lemma association_calls_name:
  "c \<in> set (association_calls hash nm) \<Longrightarrow>
     (c = MaterializeHasMany (fst nm) (hash_get hash (fst nm)) \<and> kind (snd nm) = ''hasMany'')
     \<or> (c = MaterializeBelongsTo (fst nm) (hash_get hash (fst nm)) \<and> kind (snd nm) = ''belongsTo'')"
  by (auto simp: association_calls_def split: if_splits)

lemma materialize_set:
  "set (drop (length tr) (materialize record hash tr))
     = {MaterializeId (extractId (constructor record) hash)}
       \<union> (\<lambda>na. MaterializeAttribute (fst na) (hash_get hash (fst na))) ` set (attributes (constructor record))
       \<union> (\<Union>nm \<in> set (associationsByName (constructor record)). set (association_calls hash nm))"
  by (simp add: materialize_calls)

text \<open>
  C9. For a name that is not among the payload's own properties, the call for a declared
  attribute of that name, and for a declared association of that name of kind hasMany or
  belongsTo, is still made to the record, and every materialization call made for that
  name hands the record what the property read \<open>hash[name]\<close> gives: \<open>undefined\<close>, no
  payload value, unless the payload inherits a property of that name, and then the
  inherited value.
\<close>

theorem materialize_absent_field_delegated:
  assumes "own hash name = None"
  shows "((name, attribute) \<in> set (attributes (constructor record)) \<longrightarrow>
            MaterializeAttribute name (hash_get hash name)
              \<in> set (drop (length tr) (materialize record hash tr)))
       \<and> ((name, meta) \<in> set (associationsByName (constructor record)) \<and> kind meta = ''hasMany'' \<longrightarrow>
            MaterializeHasMany name (hash_get hash name)
              \<in> set (drop (length tr) (materialize record hash tr)))
       \<and> ((name, meta) \<in> set (associationsByName (constructor record)) \<and> kind meta = ''belongsTo'' \<longrightarrow>
            MaterializeBelongsTo name (hash_get hash name)
              \<in> set (drop (length tr) (materialize record hash tr)))
       \<and> (\<forall>v. MaterializeAttribute name v \<in> set (drop (length tr) (materialize record hash tr))
              \<or> MaterializeHasMany name v \<in> set (drop (length tr) (materialize record hash tr))
              \<or> MaterializeBelongsTo name v \<in> set (drop (length tr) (materialize record hash tr))
            \<longrightarrow> v = hash_get hash name)
       \<and> hash_get hash name
           = (case inherited hash name of Some f \<Rightarrow> f | None \<Rightarrow> Undefined)
       \<and> (inherited hash name = None \<longrightarrow> hash_get hash name = Undefined)"
proof -
  have u: "hash_get hash name = (case inherited hash name of Some f \<Rightarrow> f | None \<Rightarrow> Undefined)"
    using assms by (simp add: hash_get_def)
  have n: "inherited hash name = None \<Longrightarrow> hash_get hash name = Undefined"
    using u by simp
  have a: "(name, attribute) \<in> set (attributes (constructor record)) \<Longrightarrow>
      MaterializeAttribute name (hash_get hash name)
        \<in> set (drop (length tr) (materialize record hash tr))"
    unfolding materialize_set by force
  have h: "(name, meta) \<in> set (associationsByName (constructor record)) \<Longrightarrow> kind meta = ''hasMany'' \<Longrightarrow>
      MaterializeHasMany name (hash_get hash name)
        \<in> set (drop (length tr) (materialize record hash tr))"
    unfolding materialize_set by (force simp: association_calls_def)
  have b: "(name, meta) \<in> set (associationsByName (constructor record)) \<Longrightarrow> kind meta = ''belongsTo'' \<Longrightarrow>
      MaterializeBelongsTo name (hash_get hash name)
        \<in> set (drop (length tr) (materialize record hash tr))"
    unfolding materialize_set by (force simp: association_calls_def)
  have v: "\<And>v. MaterializeAttribute name v \<in> set (drop (length tr) (materialize record hash tr))
              \<or> MaterializeHasMany name v \<in> set (drop (length tr) (materialize record hash tr))
              \<or> MaterializeBelongsTo name v \<in> set (drop (length tr) (materialize record hash tr))
            \<Longrightarrow> v = hash_get hash name"
    unfolding materialize_set by (auto dest!: association_calls_name)
  show ?thesis using a h b v u n by blast
qed

theorem materialize_absent_field_delegated_witness:
  "own bare_hash ''comments'' = None
   \<and> MaterializeHasMany ''comments'' Undefined \<in> set (materialize post_record bare_hash [])
   \<and> hash_get bare_hash ''comments'' = Undefined"
proof -
  have h: "own bare_hash ''comments'' = None"
    by (simp add: bare_hash_def)
  have i: "inherited bare_hash ''comments'' = None"
    by (simp add: bare_hash_def object_prototype_def)
  have m: "(''comments'', \<lparr>kind = ''hasMany''\<rparr>) \<in> set (associationsByName (constructor post_record))"
    by (simp add: post_record_def post_type_def)
  have k: "kind \<lparr>kind = ''hasMany''\<rparr> = ''hasMany''"
    by simp
  note t = materialize_absent_field_delegated [OF h, of _ post_record "[]" "\<lparr>kind = ''hasMany''\<rparr>"]
  from t i have u: "hash_get bare_hash ''comments'' = Undefined"
    by blast
  from t m k have "MaterializeHasMany ''comments'' (hash_get bare_hash ''comments'')
      \<in> set (drop (length ([]::string record_call list)) (materialize post_record bare_hash []))"
    by blast
  then show ?thesis
    using h u by simp
qed

text \<open>
  Without these two restrictions C9 does not hold. A declared attribute \<open>toString\<close> that
  the payload lacks is handed the function the payload inherits, not \<open>undefined\<close>; and for
  the declared association \<open>tags\<close> of kind manyToMany, which the payload lacks too, no call
  is made at all.
\<close>

theorem materialize_absent_field_counterexample:
  "own bare_hash ''toString'' = None
   \<and> (''toString'', ''string'') \<in> set (attributes (constructor legacy_record))
   \<and> materialize legacy_record bare_hash []
       = [MaterializeId (Val ''42''), MaterializeAttribute ''toString'' (Val ''function toString'')]
   \<and> own bare_hash ''tags'' = None
   \<and> (''tags'', \<lparr>kind = ''manyToMany''\<rparr>) \<in> set (associationsByName (constructor post_record))
   \<and> materialize post_record bare_hash []
       = [MaterializeId (Val ''42''), MaterializeAttribute ''title'' Undefined,
          MaterializeHasMany ''comments'' Undefined, MaterializeBelongsTo ''author'' Undefined]"
  by (simp add: materialize_def materializeId_def materializeAttributes_def
      materializeAttribute_def materialize_association_def materializeHasMany_def
      materializeBelongsTo_def send_def extractId_def hash_get_def bare_hash_def
      object_prototype_def legacy_record_def legacy_type_def post_record_def post_type_def)

lemma materialize_field_write:
  assumes "c \<in> set (materialize record hash [])" and "field_write c = Some (n, v)"
  shows "n \<in> fst ` set (attributes (constructor record))
       \<or> (\<exists>m. (n, m) \<in> set (associationsByName (constructor record))
              \<and> (kind m = ''hasMany'' \<or> kind m = ''belongsTo''))"
proof -
  have "c \<in> set (drop (length ([]::'a record_call list)) (materialize record hash []))"
    using assms(1) by simp
  then consider "c = MaterializeId (extractId (constructor record) hash)"
    | na where "na \<in> set (attributes (constructor record))"
        "c = MaterializeAttribute (fst na) (hash_get hash (fst na))"
    | nm where "nm \<in> set (associationsByName (constructor record))"
        "c \<in> set (association_calls hash nm)"
    unfolding materialize_set by blast
  then show ?thesis
  proof cases
    case 1
    then show ?thesis using assms(2) by simp
  next
    case 2
    then show ?thesis using assms(2) by force
  next
    case 3
    from association_calls_name [OF 3(2)] assms(2) have "fst nm = n"
      and "kind (snd nm) = ''hasMany'' \<or> kind (snd nm) = ''belongsTo''"
      by auto
    with 3(1) show ?thesis by (metis prod.collapse)
  qed
qed

lemma distinct_fst_unique:
  "distinct (map fst xs) \<Longrightarrow> (k, a) \<in> set xs \<Longrightarrow> (k, b) \<in> set xs \<Longrightarrow> a = b"
  by (induction xs) (auto simp: rev_image_eqI)

lemma materialize_write_value:
  assumes "c \<in> set (materialize record hash [])" and "field_write c = Some (n, v)"
  shows "v = hash_get hash n"
proof -
  have "c \<in> set (drop (length ([]::'a record_call list)) (materialize record hash []))"
    using assms(1) by simp
  then consider "c = MaterializeId (extractId (constructor record) hash)"
    | na :: "string \<times> string" where "c = MaterializeAttribute (fst na) (hash_get hash (fst na))"
    | nm where "c \<in> set (association_calls hash nm)"
    unfolding materialize_set by auto
  then show ?thesis
  proof cases
    case 1
    then show ?thesis using assms(2) by simp
  next
    case 2
    then show ?thesis using assms(2) by auto
  next
    case 3
    from association_calls_name [OF 3] assms(2) show ?thesis by auto
  qed
qed

text \<open>
  C10. \<open>materialize\<close> makes exactly these calls, for every record and payload: one for the
  identifier, one for every declared attribute, one for every association of kind hasMany
  or belongsTo. For an association of any other kind the callback makes no call, so that
  (\<open>associationsByName\<close> being a map, with one entry per name) no \<open>materializeHasMany\<close>
  and no \<open>materializeBelongsTo\<close> call is made for its name. The record's field of that
  name keeps its value when no attribute of the same name is declared; when one is, the
  attribute's call writes \<open>hash[name]\<close> to the field.
\<close>

theorem materialize_skips_other_kinds:
  "materialize record hash tr
     = tr @ MaterializeId (extractId (constructor record) hash)
          # map (\<lambda>na. MaterializeAttribute (fst na) (hash_get hash (fst na)))
              (attributes (constructor record))
          @ concat (map (association_calls hash) (associationsByName (constructor record)))
   \<and> MaterializeId (extractId (constructor record) hash) \<in> set (materialize record hash [])
   \<and> (\<forall>na \<in> set (attributes (constructor record)).
        MaterializeAttribute (fst na) (hash_get hash (fst na)) \<in> set (materialize record hash []))
   \<and> (\<forall>nm \<in> set (associationsByName (constructor record)).
        (kind (snd nm) = ''hasMany'' \<longrightarrow>
           MaterializeHasMany (fst nm) (hash_get hash (fst nm)) \<in> set (materialize record hash []))
        \<and> (kind (snd nm) = ''belongsTo'' \<longrightarrow>
           MaterializeBelongsTo (fst nm) (hash_get hash (fst nm)) \<in> set (materialize record hash [])))
   \<and> ((name, meta) \<in> set (associationsByName (constructor record))
        \<and> kind meta \<noteq> ''hasMany'' \<and> kind meta \<noteq> ''belongsTo'' \<longrightarrow>
        association_calls hash (name, meta) = []
        \<and> (distinct (map fst (associationsByName (constructor record))) \<longrightarrow>
             (\<forall>v. MaterializeHasMany name v \<notin> set (materialize record hash [])
                  \<and> MaterializeBelongsTo name v \<notin> set (materialize record hash []))
             \<and> (name \<notin> fst ` set (attributes (constructor record)) \<longrightarrow>
                  field_values (materialized record hash) name = field_values record name)
             \<and> (name \<in> fst ` set (attributes (constructor record)) \<longrightarrow>
                  field_values (materialized record hash) name = Some (hash_get hash name))))"
proof -
  let ?cs = "materialize record hash []"
  let ?ws = "rev (List.map_filter field_write ?cs)"
  have set_cs: "set ?cs
     = {MaterializeId (extractId (constructor record) hash)}
       \<union> (\<lambda>na. MaterializeAttribute (fst na) (hash_get hash (fst na))) ` set (attributes (constructor record))
       \<union> (\<Union>nm \<in> set (associationsByName (constructor record)). set (association_calls hash nm))"
    using materialize_set [of "[]" "record" hash] by simp
  have p0: "materialize record hash tr
     = tr @ MaterializeId (extractId (constructor record) hash)
          # map (\<lambda>na. MaterializeAttribute (fst na) (hash_get hash (fst na)))
              (attributes (constructor record))
          @ concat (map (association_calls hash) (associationsByName (constructor record)))"
    by (rule materialize_calls)
  have p1: "MaterializeId (extractId (constructor record) hash) \<in> set ?cs"
    unfolding set_cs by simp
  have p2: "\<forall>na \<in> set (attributes (constructor record)).
      MaterializeAttribute (fst na) (hash_get hash (fst na)) \<in> set ?cs"
    unfolding set_cs by blast
  have p3: "\<forall>nm \<in> set (associationsByName (constructor record)).
      (kind (snd nm) = ''hasMany'' \<longrightarrow> MaterializeHasMany (fst nm) (hash_get hash (fst nm)) \<in> set ?cs)
      \<and> (kind (snd nm) = ''belongsTo'' \<longrightarrow> MaterializeBelongsTo (fst nm) (hash_get hash (fst nm)) \<in> set ?cs)"
    unfolding set_cs by (force simp: association_calls_def)
  have rest: "association_calls hash (name, meta) = []
        \<and> (distinct (map fst (associationsByName (constructor record))) \<longrightarrow>
             (\<forall>v. MaterializeHasMany name v \<notin> set ?cs \<and> MaterializeBelongsTo name v \<notin> set ?cs)
             \<and> (name \<notin> fst ` set (attributes (constructor record)) \<longrightarrow>
                  field_values (materialized record hash) name = field_values record name)
             \<and> (name \<in> fst ` set (attributes (constructor record)) \<longrightarrow>
                  field_values (materialized record hash) name = Some (hash_get hash name)))"
    if nm: "(name, meta) \<in> set (associationsByName (constructor record))"
      and other: "kind meta \<noteq> ''hasMany''" "kind meta \<noteq> ''belongsTo''"
  proof -
    have q0: "association_calls hash (name, meta) = []"
      using other by (simp add: association_calls_def)
    have q: "(\<forall>v. MaterializeHasMany name v \<notin> set ?cs \<and> MaterializeBelongsTo name v \<notin> set ?cs)
             \<and> (name \<notin> fst ` set (attributes (constructor record)) \<longrightarrow>
                  field_values (materialized record hash) name = field_values record name)
             \<and> (name \<in> fst ` set (attributes (constructor record)) \<longrightarrow>
                  field_values (materialized record hash) name = Some (hash_get hash name))"
      if uniq: "distinct (map fst (associationsByName (constructor record)))"
    proof -
      have only: "\<And>m. (name, m) \<in> set (associationsByName (constructor record)) \<Longrightarrow> m = meta"
        using distinct_fst_unique [OF uniq _ nm] by blast
      have p4: "MaterializeHasMany name v \<notin> set ?cs \<and> MaterializeBelongsTo name v \<notin> set ?cs" for v
      proof -
        have "False" if "c \<in> set ?cs" "c = MaterializeHasMany name v \<or> c = MaterializeBelongsTo name v" for c
        proof -
          from that obtain nm' where nm': "nm' \<in> set (associationsByName (constructor record))"
            "c \<in> set (association_calls hash nm')"
            unfolding set_cs by auto
          from association_calls_name [OF nm'(2)] that(2)
          have "fst nm' = name" "kind (snd nm') = ''hasMany'' \<or> kind (snd nm') = ''belongsTo''"
            by auto
          moreover have "snd nm' = meta"
            using only [of "snd nm'"] nm'(1) \<open>fst nm' = name\<close> by (cases nm') auto
          ultimately show False using other by simp
        qed
        then show ?thesis by blast
      qed
      have p5: "field_values (materialized record hash) name = field_values record name"
        if na: "name \<notin> fst ` set (attributes (constructor record))"
      proof -
        have "name \<notin> fst ` set ?ws"
        proof
          assume "name \<in> fst ` set ?ws"
          then obtain v c where "c \<in> set ?cs" "field_write c = Some (name, v)"
            by (auto simp: List.map_filter_def)
          from materialize_field_write [OF this] na obtain m where
            "(name, m) \<in> set (associationsByName (constructor record))"
            "kind m = ''hasMany'' \<or> kind m = ''belongsTo''"
            by blast
          with only [of m] other show False by auto
        qed
        then have "map_of ?ws name = None"
          by (simp add: map_of_eq_None_iff)
        then show ?thesis
          by (simp add: materialized_def foldl_receive_fields)
      qed
      have p6: "field_values (materialized record hash) name = Some (hash_get hash name)"
        if na: "name \<in> fst ` set (attributes (constructor record))"
      proof -
        from na obtain a where "(name, a) \<in> set (attributes (constructor record))" by auto
        then have "MaterializeAttribute name (hash_get hash name) \<in> set ?cs"
          using p2 by force
        then have "(name, hash_get hash name) \<in> set ?ws"
          by (force simp: List.map_filter_def)
        then have "map_of ?ws name \<noteq> None"
          by (metis map_of_eq_None_iff fst_conv image_eqI)
        then obtain v where v: "map_of ?ws name = Some v" by blast
        then have "(name, v) \<in> set ?ws" by (rule map_of_SomeD)
        then obtain c where "c \<in> set ?cs" "field_write c = Some (name, v)"
          by (auto simp: List.map_filter_def)
        from materialize_write_value [OF this] v
        show ?thesis
          by (simp add: materialized_def foldl_receive_fields)
      qed
      show ?thesis using p4 p5 p6 by blast
    qed
    show ?thesis using q0 q by blast
  qed
  show ?thesis using p0 p1 p2 p3 rest by blast
qed

theorem materialize_skips_other_kinds_witness:
  "(''tags'', \<lparr>kind = ''manyToMany''\<rparr>) \<in> set (associationsByName (constructor post_record))
   \<and> distinct (map fst (associationsByName (constructor post_record)))
   \<and> ''tags'' \<notin> fst ` set (attributes (constructor post_record))
   \<and> (\<forall>v. MaterializeHasMany ''tags'' v \<notin> set (materialize post_record post_hash []))
   \<and> field_values (materialized post_record post_hash) ''tags'' = Some (Val ''old'')"
proof -
  have nm: "(''tags'', \<lparr>kind = ''manyToMany''\<rparr>) \<in> set (associationsByName (constructor post_record))"
    by (simp add: post_record_def post_type_def)
  have uniq: "distinct (map fst (associationsByName (constructor post_record)))"
    by (simp add: post_record_def post_type_def)
  have na: "''tags'' \<notin> fst ` set (attributes (constructor post_record))"
    by (simp add: post_record_def post_type_def)
  have old: "field_values post_record ''tags'' = Some (Val ''old'')"
    by (simp add: post_record_def)
  have k: "kind \<lparr>kind = ''manyToMany''\<rparr> \<noteq> ''hasMany''" "kind \<lparr>kind = ''manyToMany''\<rparr> \<noteq> ''belongsTo''"
    by simp_all
  note t = materialize_skips_other_kinds [of post_record post_hash "[]" "''tags''"
      "\<lparr>kind = ''manyToMany''\<rparr>"]
  from t nm k uniq have no: "\<forall>v. MaterializeHasMany ''tags'' v \<notin> set (materialize post_record post_hash [])"
    by blast
  from t nm k uniq na
  have "field_values (materialized post_record post_hash) ''tags'' = field_values post_record ''tags''"
    by blast
  with old have same: "field_values (materialized post_record post_hash) ''tags'' = Some (Val ''old'')"
    by simp
  from nm uniq na no same show ?thesis
    by blast
qed

text \<open>
  That the field keeps its value does not hold where an attribute of the same name is
  declared: the association \<open>tags\<close> is of kind manyToMany, and the record's field
  \<open>tags\<close> is written all the same, by the call for the attribute \<open>tags\<close>.
\<close>

theorem materialize_other_kind_field_counterexample:
  "(''tags'', \<lparr>kind = ''manyToMany''\<rparr>) \<in> set (associationsByName (constructor clash_record))
   \<and> field_values clash_record ''tags'' = Some (Val ''old'')
   \<and> field_values (materialized clash_record post_hash) ''tags'' = Some (Val ''new'')"
  by (simp add: materialized_def materialize_def materializeId_def materializeAttributes_def
      materializeAttribute_def materialize_association_def materializeHasMany_def
      materializeBelongsTo_def send_def extractId_def hash_get_def post_hash_def
      object_prototype_def clash_record_def clash_type_def)

section \<open>Properties of grouping\<close>

lemma set_first_seen [simp]: "set (first_seen xs) = set xs"
  by (induction xs) auto

lemma distinct_first_seen [simp]: "distinct (first_seen xs)"
  by (induction xs) (auto simp: distinct_removeAll)

lemma first_seen_snoc:
  "first_seen (xs @ [k]) = (if k \<in> set xs then first_seen xs else first_seen xs @ [k])"
  by (induction xs) (auto simp: removeAll_id)

lemma push_item_absent: "k \<notin> fst ` set g \<Longrightarrow> push_item k x g = g @ [(k, [x])]"
  by (induction g) auto

lemma push_item_present:
  "distinct ks \<Longrightarrow> k \<in> set ks \<Longrightarrow>
   push_item k x (map (\<lambda>t. (t, f t)) ks) = map (\<lambda>t. (t, if t = k then f t @ [x] else f t)) ks"
  by (induction ks) auto

lemma push_item_groups_of:
  "push_item (constructor x) x (groups_of xs) = groups_of (xs @ [x])"
proof (cases "constructor x \<in> set (map constructor xs)")
  case True
  then have "push_item (constructor x) x (groups_of xs)
      = map (\<lambda>t. (t, if t = constructor x then filter (\<lambda>y. constructor y = t) xs @ [x]
                      else filter (\<lambda>y. constructor y = t) xs)) (first_seen (map constructor xs))"
    unfolding groups_of_def by (intro push_item_present) simp_all
  also have "\<dots> = groups_of (xs @ [x])"
    using True by (auto simp: groups_of_def first_seen_snoc)
  finally show ?thesis .
next
  case False
  then have ne: "\<forall>y \<in> set xs. constructor y \<noteq> constructor x"
    by (metis imageI list.set_map)
  have "constructor x \<notin> fst ` set (groups_of xs)"
    using False by (force simp: groups_of_def)
  then have "push_item (constructor x) x (groups_of xs) = groups_of xs @ [(constructor x, [x])]"
    by (rule push_item_absent)
  also have "\<dots> = groups_of (xs @ [x])"
  proof -
    have e: "filter (\<lambda>y. constructor y = constructor x) xs = []"
      using ne by (simp add: filter_empty_conv)
    have "map (\<lambda>t. (t, filter (\<lambda>y. constructor y = t) xs @ (if constructor x = t then [x] else [])))
           (first_seen (map constructor xs))
       = map (\<lambda>t. (t, filter (\<lambda>y. constructor y = t) xs)) (first_seen (map constructor xs))"
      using ne by (intro map_cong) fastforce+
    then show ?thesis
      using False e by (auto simp: groups_of_def first_seen_snoc)
  qed
  finally show ?thesis .
qed

lemma foldl_push_item_groups_of:
  "foldl (\<lambda>g x. push_item (constructor x) x g) [] xs = groups_of xs"
proof (induction xs rule: rev_induct)
  case Nil show ?case by (simp add: groups_of_def)
next
  case (snoc x xs)
  then show ?case by (simp add: push_item_groups_of)
qed

lemma array_at_pushObject:
  "array_at (pushObject a x w) b
     = (if b = a \<and> a < length (heap w) then array_at w a @ [x] else array_at w b)"
  by (simp add: array_at_def pushObject_def nth_list_update)

lemma length_heap_pushObject [simp]: "length (heap (pushObject a x w)) = length (heap w)"
  by (simp add: pushObject_def)

lemma calls_pushObject [simp]: "calls (pushObject a x w) = calls w"
  by (simp add: pushObject_def)

lemma prefix_list_update: "prefix h0 h \<Longrightarrow> length h0 \<le> a \<Longrightarrow> prefix h0 (h[a := v])"
  by (auto simp: prefix_def list_update_append)

lemma prefix_pushObject:
  "prefix h0 (heap w) \<Longrightarrow> length h0 \<le> a \<Longrightarrow> prefix h0 (heap (pushObject a x w))"
  by (simp add: pushObject_def prefix_list_update)

lemma array_at_prefix:
  "prefix (heap w) (heap w') \<Longrightarrow> a < length (heap w) \<Longrightarrow> array_at w' a = array_at w a"
  by (auto simp: array_at_def prefix_def nth_append)

lemma view_cong: "(\<And>b. b \<in> snd ` set m \<Longrightarrow> array_at w' b = array_at w b) \<Longrightarrow> view w' m = view w m"
  by (simp add: view_def)

lemma map_fst_view [simp]: "map fst (view w m) = map fst m"
  by (simp add: view_def comp_def)

lemma view_pushObject_present:
  "distinct (map snd m) \<Longrightarrow> map_of m k = Some a \<Longrightarrow> \<forall>b \<in> snd ` set m. b < length (heap w) \<Longrightarrow>
   view (pushObject a x w) m = push_item k x (view w m)"
proof (induction m)
  case Nil
  then show ?case by simp
next
  case (Cons ta m)
  obtain t b where ta: "ta = (t, b)" by (cases ta)
  show ?case
  proof (cases "t = k")
    case True
    with Cons.prems ta have ba: "b = a" by simp
    have "a \<notin> snd ` set m" using Cons.prems(1) ta ba by simp
    then have "view (pushObject a x w) m = view w m"
      by (intro view_cong) (auto simp: array_at_pushObject)
    moreover have "a < length (heap w)" using Cons.prems(3) ta ba by simp
    ultimately show ?thesis
      using True ta ba by (simp add: view_def array_at_pushObject)
  next
    case False
    with Cons.prems ta have tail: "map_of m k = Some a" by simp
    then have "a \<in> snd ` set m" by (metis map_of_SomeD snd_conv image_eqI)
    then have "b \<noteq> a" using Cons.prems(1) ta by auto
    moreover have "view (pushObject a x w) m = push_item k x (view w m)"
      using Cons.IH Cons.prems tail by simp
    ultimately show ?thesis
      using False ta by (simp add: view_def array_at_pushObject)
  qed
qed

lemma groupByType_step_refines:
  assumes inv: "group_inv h0 m w" and step: "groupByType_step x (m, w) = (m', w')"
  shows "group_inv h0 m' w' \<and> view w' m' = push_item (constructor x) x (view w m)
         \<and> calls w' = calls w"
proof (cases "map_of m (constructor x)")
  case (Some a)
  with step have m': "m' = m" and w': "w' = pushObject a x w"
    by (simp_all add: groupByType_step_def map_get_def)
  have a_in: "a \<in> snd ` set m" using Some by (metis map_of_SomeD snd_conv image_eqI)
  with inv have a_rng: "length h0 \<le> a" "a < length (heap w)"
    by (auto simp: group_inv_def)
  have "group_inv h0 m' w'"
    using inv a_rng by (simp add: group_inv_def m' w' prefix_pushObject)
  moreover have "view w' m' = push_item (constructor x) x (view w m)"
    unfolding m' w' using inv Some by (intro view_pushObject_present) (auto simp: group_inv_def)
  ultimately show ?thesis by (simp add: w')
next
  case None
  define a where "a = length (heap w)"
  from None step have m': "m' = m @ [(constructor x, a)]"
    and w': "w' = pushObject a x (w\<lparr>heap := heap w @ [[]]\<rparr>)"
    by (simp_all add: groupByType_step_def map_get_def new_array_def a_def)
  have hw': "heap w' = heap w @ [[x]]"
    by (simp add: w' pushObject_def array_at_def a_def)
  have old: "array_at w' b = array_at w b" if "b < length (heap w)" for b
    using that by (simp add: array_at_def hw' nth_append)
  have keys: "constructor x \<notin> fst ` set m"
    using None by (simp add: map_of_eq_None_iff)
  have rng: "\<forall>b \<in> snd ` set m. length h0 \<le> b \<and> b < length (heap w)"
    using inv by (simp add: group_inv_def)
  have "group_inv h0 m' w'"
  proof -
    have "prefix h0 (heap w')"
      using inv by (auto simp: group_inv_def hw' prefix_def)
    moreover have "length h0 \<le> a"
      using inv by (auto simp: group_inv_def a_def prefix_def)
    moreover have "a \<notin> snd ` set m" using rng by (auto simp: a_def)
    ultimately show ?thesis
      using inv keys rng by (auto simp: group_inv_def m' hw' a_def)
  qed
  moreover have "view w' m' = push_item (constructor x) x (view w m)"
  proof -
    have "view w' m = view w m"
      using rng by (intro view_cong old) auto
    moreover have "array_at w' a = [x]"
      by (simp add: array_at_def hw' a_def)
    moreover have "constructor x \<notin> fst ` set (view w m)"
      using keys by (metis map_fst_view set_map)
    ultimately show ?thesis
      by (simp add: push_item_absent m' view_def)
  qed
  moreover have "calls w' = calls w" by (simp add: w')
  ultimately show ?thesis by simp
qed

lemma groupByType_loop_refines:
  assumes "group_inv h0 m w" and "forEach groupByType_step xs (m, w) = (m', w')"
  shows "group_inv h0 m' w'
         \<and> view w' m' = foldl (\<lambda>g x. push_item (constructor x) x g) (view w m) xs
         \<and> calls w' = calls w"
  using assms
proof (induction xs arbitrary: m w)
  case Nil
  then show ?case by simp
next
  case (Cons x xs)
  obtain m1 w1 where s: "groupByType_step x (m, w) = (m1, w1)"
    by (cases "groupByType_step x (m, w)")
  from groupByType_step_refines [OF Cons.prems(1) s]
  have 1: "group_inv h0 m1 w1" "view w1 m1 = push_item (constructor x) x (view w m)"
    "calls w1 = calls w" by simp_all
  from Cons.prems(2) s have "forEach groupByType_step xs (m1, w1) = (m', w')" by simp
  from Cons.IH [OF 1(1) this] 1(2,3) show ?case by simp
qed

lemma groupByType_groups:
  assumes "groupByType xs w = (m, w')"
  shows "view w' m = groups_of xs" and "calls w' = calls w" and "prefix (heap w) (heap w')"
    and "distinct (map fst m)" and "distinct (map snd m)"
    and "\<forall>a \<in> snd ` set m. length (heap w) \<le> a \<and> a < length (heap w')"
proof -
  have "group_inv (heap w) [] w" by (simp add: group_inv_def)
  from groupByType_loop_refines [OF this assms [unfolded groupByType_def]]
  have "group_inv (heap w) m w'" "view w' m = groups_of xs" "calls w' = calls w"
    by (simp_all add: foldl_push_item_groups_of view_def)
  then show "view w' m = groups_of xs" and "calls w' = calls w" and "prefix (heap w) (heap w')"
    and "distinct (map fst m)" and "distinct (map snd m)"
    and "\<forall>a \<in> snd ` set m. length (heap w) \<le> a \<and> a < length (heap w')"
    by (simp_all add: group_inv_def)
qed

lemma mset_filter_disjoint:
  "\<forall>x \<in> set xs. \<not> (P x \<and> Q x) \<Longrightarrow>
   mset (filter P xs) + mset (filter Q xs) = mset (filter (\<lambda>x. P x \<or> Q x) xs)"
  by (induction xs) auto

lemma mset_concat_groups:
  "distinct ks \<Longrightarrow>
   mset (concat (map (\<lambda>t. filter (\<lambda>x. f x = t) xs) ks)) = mset (filter (\<lambda>x. f x \<in> set ks) xs)"
proof (induction ks)
  case Nil
  then show ?case by simp
next
  case (Cons k ks)
  then have "\<forall>x \<in> set xs. \<not> (f x = k \<and> f x \<in> set ks)" by auto
  from mset_filter_disjoint [OF this] Cons show ?case
    by (simp add: disj_commute eq_commute)
qed

lemma mset_concat_groups_of: "mset (concat (map snd (groups_of xs))) = mset xs"
proof -
  have "mset (concat (map snd (groups_of xs)))
      = mset (filter (\<lambda>x. constructor x \<in> set (first_seen (map constructor xs))) xs)"
    using mset_concat_groups [of "first_seen (map constructor xs)" constructor xs]
    by (simp add: groups_of_def comp_def)
  also have "\<dots> = mset xs"
    by (simp add: filter_True)
  finally show ?thesis .
qed

text \<open>
  C3. \<open>groupByType\<close> partitions a collection by the type of its records: the keys are the
  types in first-seen order, each once and each with an array of its own; the array of a
  type holds the records of that type in their order in the collection; the arrays together
  hold the records of the collection, as many times as the collection does; and every
  record of the collection is in exactly one group.
\<close>

theorem groupByType_partitions:
  assumes "groupByType C w = (m, w')"
  shows "map fst m = first_seen (map constructor C)
       \<and> distinct (map fst m) \<and> distinct (map snd m)
       \<and> (\<forall>ta \<in> set m. array_at w' (snd ta) = filter (\<lambda>x. constructor x = fst ta) C)
       \<and> mset (concat (map (\<lambda>ta. array_at w' (snd ta)) m)) = mset C
       \<and> (\<forall>x \<in> set C. \<exists>!ta. ta \<in> set m \<and> x \<in> set (array_at w' (snd ta)))"
proof -
  note g = groupByType_groups [OF assms]
  have keys: "map fst m = first_seen (map constructor C)"
    using arg_cong [OF g(1), of "map fst"] by (simp add: groups_of_def comp_def)
  have grp: "array_at w' (snd ta) = filter (\<lambda>x. constructor x = fst ta) C" if "ta \<in> set m" for ta
  proof -
    from that have "(fst ta, array_at w' (snd ta)) \<in> set (view w' m)"
      by (force simp: view_def)
    then show ?thesis
      unfolding g(1) by (auto simp: groups_of_def)
  qed
  have arrays: "map (\<lambda>ta. array_at w' (snd ta)) m = map snd (groups_of C)"
    using arg_cong [OF g(1), of "map snd"] by (simp add: view_def comp_def)
  have uni: "mset (concat (map (\<lambda>ta. array_at w' (snd ta)) m)) = mset C"
    unfolding arrays by (rule mset_concat_groups_of)
  have one: "\<exists>!ta. ta \<in> set m \<and> x \<in> set (array_at w' (snd ta))" if "x \<in> set C" for x
  proof -
    from that have "constructor x \<in> set (map fst m)"
      unfolding keys by simp
    then obtain ta where ta: "ta \<in> set m" "fst ta = constructor x" by auto
    show ?thesis
    proof (rule ex1I [of _ ta])
      show "ta \<in> set m \<and> x \<in> set (array_at w' (snd ta))"
        using ta that by (simp add: grp)
    next
      fix tb assume tb: "tb \<in> set m \<and> x \<in> set (array_at w' (snd tb))"
      then have "fst tb = constructor x" by (auto simp: grp)
      with ta tb g(4) show "tb = ta"
        by (metis distinct_map inj_onD)
    qed
  qed
  show ?thesis using keys g(4) g(5) grp uni one by blast
qed

theorem groupByType_partitions_witness:
  "groupByType [new_record 1 post_type True, new_record 2 comment_type True,
       new_record 3 post_type False] empty_world
     = ([(post_type, 0), (comment_type, 1)],
        \<lparr>calls = [], heap = [[new_record 1 post_type True, new_record 3 post_type False],
          [new_record 2 comment_type True]]\<rparr>)
   \<and> first_seen (map constructor [new_record 1 post_type True, new_record 2 comment_type True,
       new_record 3 post_type False]) = [post_type, comment_type]
   \<and> array_at \<lparr>calls = [], heap = [[new_record 1 post_type True, new_record 3 post_type False],
          [new_record 2 comment_type True]]\<rparr> 0
       = [new_record 1 post_type True, new_record 3 post_type False]"
proof -
  have ne: "post_type \<noteq> comment_type"
    by (simp add: post_type_def comment_type_def)
  have g: "groupByType [new_record 1 post_type True, new_record 2 comment_type True,
       new_record 3 post_type False] empty_world
     = ([(post_type, 0), (comment_type, 1)],
        \<lparr>calls = [], heap = [[new_record 1 post_type True, new_record 3 post_type False],
          [new_record 2 comment_type True]]\<rparr>)"
    using ne by (simp add: groupByType_def groupByType_step_def map_get_def new_array_def
        pushObject_def array_at_def empty_world_def new_record_def)
  from groupByType_partitions [OF g] g show ?thesis
    using ne by (simp add: new_record_def array_at_def)
qed

section \<open>Properties of commit\<close>

lemma commit_updated_loop:
  "a < length (heap w) \<Longrightarrow>
   calls (forEach (commit_updated_step sc store rel a) xs w)
     = calls w @ concat (map (filter_calls sc store rel) xs)
   \<and> heap (forEach (commit_updated_step sc store rel a) xs w)
     = (heap w)[a := array_at w a @ kept sc rel xs]"
proof (induction xs arbitrary: w)
  case Nil
  then show ?case by (simp add: kept_def array_at_def)
next
  case (Cons x xs)
  let ?w1 = "commit_updated_step sc store rel a x w"
  have len: "a < length (heap ?w1)"
    using Cons.prems by (simp add: commit_updated_step_def emit_def pushObject_def Let_def)
  have c1: "calls ?w1 = calls w @ filter_calls sc store rel x"
    by (simp add: commit_updated_step_def emit_def pushObject_def Let_def filter_calls_def)
  have h1: "heap ?w1 = (heap w)[a := array_at w a @ kept sc rel [x]]"
    using Cons.prems
    by (simp add: commit_updated_step_def emit_def pushObject_def Let_def kept_def array_at_def)
  have a1: "array_at ?w1 a = array_at w a @ kept sc rel [x]"
    using Cons.prems by (simp add: array_at_def h1)
  from Cons.IH [OF len] show ?case
    by (simp add: c1 h1 a1 kept_def)
qed

lemma batch_loop:
  "\<forall>a \<in> snd ` set m. a < length (heap w) \<Longrightarrow>
   calls (forEach (batch_step C store) m w)
     = calls w @ map (\<lambda>tn. C store (fst tn) (snd tn))
         (zip (map fst m) [length (heap w)..<length (heap w) + length m])
   \<and> heap (forEach (batch_step C store) m w) = heap w @ map (\<lambda>ta. array_at w (snd ta)) m"
proof (induction m arbitrary: w)
  case Nil
  then show ?case by simp
next
  case (Cons ta m)
  let ?w1 = "batch_step C store ta w"
  have c1: "calls ?w1 = calls w @ [C store (fst ta) (length (heap w))]"
    by (simp add: batch_step_def slice_def emit_def)
  have h1: "heap ?w1 = heap w @ [array_at w (snd ta)]"
    by (simp add: batch_step_def slice_def emit_def)
  have old: "array_at ?w1 b = array_at w b" if "b < length (heap w)" for b
    using that by (simp add: array_at_def h1 nth_append)
  have rng: "\<forall>a \<in> snd ` set m. a < length (heap ?w1)"
    using Cons.prems by (auto simp: h1)
  have same: "map (\<lambda>ta. array_at ?w1 (snd ta)) m = map (\<lambda>ta. array_at w (snd ta)) m"
    using Cons.prems by (intro map_cong) (auto simp: old)
  have upt: "[length (heap w)..<length (heap w) + length (ta # m)]
      = length (heap w) # [length (heap ?w1)..<length (heap ?w1) + length m]"
    by (subst upt_rec) (simp add: h1)
  from Cons.IH [OF rng] show ?case
    unfolding upt by (simp add: c1 same) (simp add: h1)
qed

lemma length_view [simp]: "length (view w m) = length m"
  by (simp add: view_def)

lemma phase:
  assumes g: "groupByType xs w = (m, w1)"
    and b: "w2 = forEach (batch_step C store) m w1"
  shows "calls w2 = calls w @ phase_calls C store (groups_of xs) (length (heap w1))"
    and "heap w2 = heap w1 @ map snd (groups_of xs)"
    and "prefix (heap w) (heap w1)"
    and "view w1 m = groups_of xs"
    and "\<forall>a \<in> snd ` set m. length (heap w) \<le> a \<and> a < length (heap w1)"
proof -
  note gg = groupByType_groups [OF g]
  have rng: "\<forall>a \<in> snd ` set m. a < length (heap w1)"
    using gg(6) by blast
  have keys: "map fst m = map fst (groups_of xs)"
    using arg_cong [OF gg(1), of "map fst"] by simp
  have len: "length m = length (groups_of xs)"
    using arg_cong [OF gg(1), of length] by simp
  have arrs: "map (\<lambda>ta. array_at w1 (snd ta)) m = map snd (groups_of xs)"
    using arg_cong [OF gg(1), of "map snd"] by (simp add: view_def comp_def)
  from batch_loop [OF rng, of C store]
  show "calls w2 = calls w @ phase_calls C store (groups_of xs) (length (heap w1))"
    and "heap w2 = heap w1 @ map snd (groups_of xs)"
    by (simp_all add: b gg(2) keys len arrs phase_calls_def)
  show "prefix (heap w) (heap w1)" by (rule gg(3))
  show "view w1 m = groups_of xs" by (rule gg(1))
  show "\<forall>a \<in> snd ` set m. length (heap w) \<le> a \<and> a < length (heap w1)" by (rule gg(6))
qed

lemma copies_read_back:
  assumes "prefix (h1 @ gs) (heap w')"
  shows "map (array_at w') [length h1..<length h1 + length gs] = gs"
proof (rule nth_equalityI)
  show "length (map (array_at w') [length h1..<length h1 + length gs]) = length gs" by simp
next
  fix i assume "i < length (map (array_at w') [length h1..<length h1 + length gs])"
  then have i: "i < length gs" by simp
  from assms obtain zs where h: "heap w' = h1 @ gs @ zs" by (auto simp: prefix_def)
  have "array_at w' (length h1 + i) = gs ! i"
    using i by (simp add: array_at_def h nth_append)
  then show "map (array_at w') [length h1..<length h1 + length gs] ! i = gs ! i"
    using i by simp
qed

lemma batches_append: "batches w (xs @ ys) = batches w xs @ batches w ys"
  by (simp add: batches_def List.map_filter_def)

lemma batches_phase_calls:
  assumes C: "\<And>w s t a. batch_of w (C s t a) = Some (B s t (array_at w a))"
    and r: "map (array_at w') [n..<n + length G] = map snd G"
  shows "batches w' (phase_calls C store G n) = map (\<lambda>g. B store (fst g) (snd g)) G"
proof -
  have "batches w' (phase_calls C store G n)
      = map (\<lambda>tn. B store (fst tn) (array_at w' (snd tn))) (zip (map fst G) [n..<n + length G])"
    by (simp add: batches_def phase_calls_def List.map_filter_def C comp_def)
  also have "\<dots> = map (\<lambda>tr. B store (fst tr) (snd tr))
      (zip (map fst G) (map (array_at w') [n..<n + length G]))"
    by (simp add: zip_map2 comp_def case_prod_beta)
  also have "\<dots> = map (\<lambda>g. B store (fst g) (snd g)) G"
    unfolding r by (simp add: zip_map_fst_snd)
  finally show ?thesis .
qed

lemma batches_filter_calls: "batches w (concat (map (filter_calls sc store rel) xs)) = []"
  by (induction xs) (simp_all add: batches_def List.map_filter_def filter_calls_def)

lemma batch_addr_phase_calls:
  assumes "\<And>s t a. batch_addr (C s t a) = Some a"
  shows "List.map_filter batch_addr (phase_calls C store G n) = [n..<n + length G]"
proof -
  have "List.map_filter batch_addr (phase_calls C store G n)
      = map snd (zip (map fst G) [n..<n + length G])"
    by (simp add: phase_calls_def List.map_filter_def assms comp_def)
  then show ?thesis by simp
qed

lemma batch_addr_filter_calls:
  "List.map_filter batch_addr (concat (map (filter_calls sc store rel) xs)) = []"
  by (induction xs) (simp_all add: List.map_filter_def filter_calls_def)

lemma prefix_heap_append: "heap w2 = heap w1 @ gs \<Longrightarrow> prefix (heap w1) (heap w2)"
  by (simp add: prefix_def)

lemma view_prefix:
  "prefix (heap w) (heap w') \<Longrightarrow> \<forall>a \<in> snd ` set m. a < length (heap w) \<Longrightarrow> view w' m = view w m"
  by (intro view_cong array_at_prefix) auto

lemma commit_summary:
  assumes c: "commit_internal sc store cd rel w = ((arr, mc, mu, md), w')"
  shows "\<exists>n3 n5 n7.
      new_calls w w' = concat (map (filter_calls sc store rel) (updated cd))
         @ phase_calls CreateRecords store (groups_of (created cd)) n3
         @ phase_calls UpdateRecords store (groups_of (kept sc rel (updated cd))) n5
         @ phase_calls DeleteRecords store (groups_of (deleted cd)) n7
    \<and> arr = length (heap w) \<and> arr < n3
    \<and> n3 + length (groups_of (created cd)) \<le> n5
    \<and> n5 + length (groups_of (kept sc rel (updated cd))) \<le> n7
    \<and> (\<forall>a \<in> snd ` set mc. arr < a \<and> a < n3)
    \<and> (\<forall>a \<in> snd ` set mu. n3 + length (groups_of (created cd)) \<le> a \<and> a < n5)
    \<and> (\<forall>a \<in> snd ` set md. n5 + length (groups_of (kept sc rel (updated cd))) \<le> a \<and> a < n7)
    \<and> map (array_at w') [n3..<n3 + length (groups_of (created cd))] = map snd (groups_of (created cd))
    \<and> map (array_at w') [n5..<n5 + length (groups_of (kept sc rel (updated cd)))]
        = map snd (groups_of (kept sc rel (updated cd)))
    \<and> map (array_at w') [n7..<n7 + length (groups_of (deleted cd))] = map snd (groups_of (deleted cd))
    \<and> view w' mc = groups_of (created cd)
    \<and> view w' mu = groups_of (kept sc rel (updated cd))
    \<and> view w' md = groups_of (deleted cd)
    \<and> array_at w' arr = kept sc rel (updated cd)
    \<and> prefix (heap w) (heap w')"
proof -
  let ?n = "length (heap w)"
  let ?Gc = "groups_of (created cd)"
  let ?Gu = "groups_of (kept sc rel (updated cd))"
  let ?Gd = "groups_of (deleted cd)"
  define w1 where "w1 = w\<lparr>heap := heap w @ [[]]\<rparr>"
  define w2 where "w2 = forEach (commit_updated_step sc store rel ?n) (updated cd) w1"
  obtain mc0 w3 where g3: "groupByType (created cd) w2 = (mc0, w3)"
    by (cases "groupByType (created cd) w2")
  define w4 where "w4 = forEach (batch_step CreateRecords store) mc0 w3"
  obtain mu0 w5 where g5: "groupByType (array_at w4 ?n) w4 = (mu0, w5)"
    by (cases "groupByType (array_at w4 ?n) w4")
  define w6 where "w6 = forEach (batch_step UpdateRecords store) mu0 w5"
  obtain md0 w7 where g7: "groupByType (deleted cd) w6 = (md0, w7)"
    by (cases "groupByType (deleted cd) w6")
  define w8 where "w8 = forEach (batch_step DeleteRecords store) md0 w7"
  have "commit_internal sc store cd rel w = ((?n, mc0, mu0, md0), w8)"
    unfolding commit_internal_def new_array_def
    by (simp add: Let_def w1_def [symmetric] w2_def [symmetric] g3 w4_def [symmetric] g5
        w6_def [symmetric] g7 w8_def [symmetric])
  with c have eqs: "arr = ?n" "mc = mc0" "mu = mu0" "md = md0" "w' = w8"
    by simp_all
  \<comment> \<open>the loop over \<open>commitDetails.updated\<close>\<close>
  have n1: "?n < length (heap w1)" by (simp add: w1_def)
  have a1: "array_at w1 ?n = []" by (simp add: w1_def array_at_def)
  from commit_updated_loop [OF n1, of sc store rel "updated cd"]
  have c2: "calls w2 = calls w @ concat (map (filter_calls sc store rel) (updated cd))"
    and h2: "heap w2 = heap w @ [kept sc rel (updated cd)]"
    by (simp_all add: w2_def [symmetric] a1) (simp_all add: w1_def)
  have a2: "array_at w2 ?n = kept sc rel (updated cd)"
    by (simp add: array_at_def h2)
  have l2: "length (heap w2) = Suc ?n" by (simp add: h2)
  \<comment> \<open>the three phases\<close>
  note p3 = phase [OF g3 w4_def]
  have p24: "prefix (heap w2) (heap w4)"
    using p3(3) prefix_heap_append [OF p3(2)] by (rule prefix_order.trans)
  have a4: "array_at w4 ?n = kept sc rel (updated cd)"
    using array_at_prefix [OF p24, of ?n] by (simp add: l2 a2)
  note p5 = phase [OF g5 [unfolded a4] w6_def]
  note p7 = phase [OF g7 w8_def]
  have p46: "prefix (heap w4) (heap w6)"
    using p5(3) prefix_heap_append [OF p5(2)] by (rule prefix_order.trans)
  have p68: "prefix (heap w6) (heap w8)"
    using p7(3) prefix_heap_append [OF p7(2)] by (rule prefix_order.trans)
  have p48: "prefix (heap w4) (heap w8)" using p46 p68 by (rule prefix_order.trans)
  have p28: "prefix (heap w2) (heap w8)" using p24 p48 by (rule prefix_order.trans)
  have p38: "prefix (heap w3) (heap w8)"
    using prefix_heap_append [OF p3(2)] p48 by (rule prefix_order.trans)
  have p58: "prefix (heap w5) (heap w8)"
    using prefix_heap_append [OF p5(2)] p68 by (rule prefix_order.trans)
  have p78: "prefix (heap w7) (heap w8)"
    by (rule prefix_heap_append [OF p7(2)])
  have p08: "prefix (heap w) (heap w8)"
    using prefix_heap_append [OF h2] p28 by (rule prefix_order.trans)
  have len23: "length (heap w2) \<le> length (heap w3)" using p3(3) by (rule prefix_length_le)
  have len45: "length (heap w4) \<le> length (heap w5)" using p5(3) by (rule prefix_length_le)
  have len67: "length (heap w6) \<le> length (heap w7)" using p7(3) by (rule prefix_length_le)
  have l4: "length (heap w4) = length (heap w3) + length ?Gc" by (simp add: p3(2))
  have l6: "length (heap w6) = length (heap w5) + length ?Gu" by (simp add: p5(2))
  have calls8: "calls w8 = calls w @ concat (map (filter_calls sc store rel) (updated cd))
       @ phase_calls CreateRecords store ?Gc (length (heap w3))
       @ phase_calls UpdateRecords store ?Gu (length (heap w5))
       @ phase_calls DeleteRecords store ?Gd (length (heap w7))"
    by (simp add: p7(1) p5(1) p3(1) c2)
  have r3: "map (array_at w8) [length (heap w3)..<length (heap w3) + length ?Gc] = map snd ?Gc"
    using copies_read_back [of "heap w3" "map snd ?Gc" w8] p48 by (simp add: p3(2))
  have r5: "map (array_at w8) [length (heap w5)..<length (heap w5) + length ?Gu] = map snd ?Gu"
    using copies_read_back [of "heap w5" "map snd ?Gu" w8] p68 by (simp add: p5(2))
  have r7: "map (array_at w8) [length (heap w7)..<length (heap w7) + length ?Gd] = map snd ?Gd"
    using copies_read_back [of "heap w7" "map snd ?Gd" w8] by (simp add: p7(2))
  have v3: "view w8 mc0 = ?Gc"
    using view_prefix [OF p38, of mc0] p3(5) by (simp add: p3(4)) 
  have v5: "view w8 mu0 = ?Gu"
    using view_prefix [OF p58, of mu0] p5(5) by (simp add: p5(4))
  have v7: "view w8 md0 = ?Gd"
    using view_prefix [OF p78, of md0] p7(5) by (simp add: p7(4))
  have a8: "array_at w8 ?n = kept sc rel (updated cd)"
    using array_at_prefix [OF p28, of ?n] by (simp add: l2 a2)
  have "new_calls w w8 = concat (map (filter_calls sc store rel) (updated cd))
       @ phase_calls CreateRecords store ?Gc (length (heap w3))
       @ phase_calls UpdateRecords store ?Gu (length (heap w5))
       @ phase_calls DeleteRecords store ?Gd (length (heap w7))"
    by (simp add: new_calls_def calls8)
  moreover have "?n < length (heap w3)" using len23 l2 by simp
  moreover have "length (heap w3) + length ?Gc \<le> length (heap w5)" using len45 l4 by simp
  moreover have "length (heap w5) + length ?Gu \<le> length (heap w7)" using len67 l6 by simp
  moreover have "\<forall>a \<in> snd ` set mc0. ?n < a \<and> a < length (heap w3)"
    using p3(5) l2 by auto
  moreover have "\<forall>a \<in> snd ` set mu0. length (heap w3) + length ?Gc \<le> a \<and> a < length (heap w5)"
    using p5(5) l4 by auto
  moreover have "\<forall>a \<in> snd ` set md0. length (heap w5) + length ?Gu \<le> a \<and> a < length (heap w7)"
    using p7(5) l6 by auto
  ultimately show ?thesis
    unfolding eqs using r3 r5 r7 v3 v5 v7 a8 p08 by blast
qed

lemma length_phase_calls [simp]: "length (phase_calls C store G n) = length G"
  by (simp add: phase_calls_def)

lemma nth_phase_calls:
  "i < length G \<Longrightarrow> phase_calls C store G n ! i = C store (fst (G ! i)) (n + i)"
  by (simp add: phase_calls_def)

lemma set_phase_calls:
  "set (phase_calls C store G n) = {C store (fst (G ! i)) (n + i) | i. i < length G}"
proof -
  have "set (phase_calls C store G n)
      = {phase_calls C store G n ! i | i. i < length (phase_calls C store G n)}"
    by (rule set_conv_nth)
  also have "\<dots> = {C store (fst (G ! i)) (n + i) | i. i < length G}"
    by (rule Collect_cong) (metis length_phase_calls nth_phase_calls)
  finally show ?thesis .
qed

lemma read_copy:
  assumes "map (array_at w') [n..<n + length G] = map snd G" and "i < length G"
  shows "array_at w' (n + i) = snd (G ! i)"
  using arg_cong [OF assms(1), of "\<lambda>l. l ! i"] assms(2) by simp

lemma groups_of_nth:
  "i < length (groups_of xs) \<Longrightarrow>
   groups_of xs ! i = (first_seen (map constructor xs) ! i,
     filter (\<lambda>x. constructor x = first_seen (map constructor xs) ! i) xs)"
  by (simp add: groups_of_def)

lemma length_groups_of: "length (groups_of xs) = length (first_seen (map constructor xs))"
  by (simp add: groups_of_def)

lemma groups_of_member:
  assumes "r \<in> set xs"
  shows "\<exists>i < length (groups_of xs). fst (groups_of xs ! i) = constructor r
           \<and> r \<in> set (snd (groups_of xs ! i))"
proof -
  from assms have "constructor r \<in> set (first_seen (map constructor xs))" by simp
  then obtain i where i: "i < length (first_seen (map constructor xs))"
    "first_seen (map constructor xs) ! i = constructor r"
    by (metis in_set_conv_nth)
  then have "i < length (groups_of xs)" by (simp add: length_groups_of)
  moreover from this i assms have "fst (groups_of xs ! i) = constructor r"
    "r \<in> set (snd (groups_of xs ! i))"
    by (simp_all add: groups_of_nth)
  ultimately show ?thesis by blast
qed

lemma groups_of_subset: "i < length (groups_of xs) \<Longrightarrow> set (snd (groups_of xs ! i)) \<subseteq> set xs"
  by (simp add: groups_of_nth)

lemma map_filter_append:
  "List.map_filter f (xs @ ys) = List.map_filter f xs @ List.map_filter f ys"
  by (simp add: List.map_filter_def)

lemma count_list_filter_calls:
  "count_list (concat (map (filter_calls sc store rel) xs)) (DidUpdateRecord store r)
     = count_list (filter (\<lambda>x. \<not> isDirty x \<and> \<not> sc x rel) xs) r"
  by (induction xs) (simp_all add: filter_calls_def)

lemma count_list_phase_calls:
  assumes "\<And>s t a. C s t a \<noteq> c"
  shows "count_list (phase_calls C store G n) c = 0"
  using assms by (auto simp: count_list_0_iff set_phase_calls)

lemma count_list_distinct: "distinct xs \<Longrightarrow> x \<in> set xs \<Longrightarrow> count_list xs x = 1"
  by (induction xs) (auto simp: count_list_0_iff)

lemma commit_internal_cases:
  obtains arr mc mu md w' where
    "commit_internal sc store cd rel w = ((arr, mc, mu, md), w')"
    "commit sc store cd rel w = w'"
proof -
  obtain arr mc mu md w' where "commit_internal sc store cd rel w = ((arr, mc, mu, md), w')"
    by (cases "commit_internal sc store cd rel w") auto
  then show thesis by (intro that) (simp_all add: commit_def)
qed

lemma shouldCommit_in_filter_calls:
  "ShouldCommit r rel' \<in> set (concat (map (filter_calls sc store rel) xs)) \<Longrightarrow> \<not> isDirty r"
  by (auto simp: filter_calls_def split: if_splits)

lemma not_in_phase_calls:
  assumes "\<And>s t a. C s t a \<noteq> c"
  shows "c \<notin> set (phase_calls C store G n)"
  using assms by (auto simp: set_phase_calls)

text \<open>
  C1. A record of \<open>commitDetails.updated\<close> that is dirty is in the array of an
  \<open>updateRecords\<close> call made for its type, and \<open>shouldCommit\<close> is not called on it,
  with whatever relationships.
\<close>

theorem commit_dirty_record_queued:
  assumes r: "r \<in> set (updated cd)" and d: "isDirty r"
  shows "(\<exists>a. UpdateRecords store (constructor r) a \<in> set (new_calls w (commit sc store cd rel w))
             \<and> r \<in> set (array_at (commit sc store cd rel w) a))
       \<and> (\<forall>rel'. ShouldCommit r rel' \<notin> set (new_calls w (commit sc store cd rel w)))"
proof -
  obtain arr mc mu md w' where ci: "commit_internal sc store cd rel w = ((arr, mc, mu, md), w')"
    and cw: "commit sc store cd rel w = w'"
    by (rule commit_internal_cases)
  let ?Gu = "groups_of (kept sc rel (updated cd))"
  from commit_summary [OF ci] obtain n3 n5 n7 where
    nc: "new_calls w w' = concat (map (filter_calls sc store rel) (updated cd))
         @ phase_calls CreateRecords store (groups_of (created cd)) n3
         @ phase_calls UpdateRecords store ?Gu n5
         @ phase_calls DeleteRecords store (groups_of (deleted cd)) n7"
    and r5: "map (array_at w') [n5..<n5 + length ?Gu] = map snd ?Gu"
    by (elim exE conjE)
  from r d have "r \<in> set (kept sc rel (updated cd))" by (simp add: kept_def)
  from groups_of_member [OF this] obtain i where i: "i < length ?Gu"
    "fst (?Gu ! i) = constructor r" "r \<in> set (snd (?Gu ! i))"
    by (elim exE conjE)
  have "UpdateRecords store (constructor r) (n5 + i) \<in> set (phase_calls UpdateRecords store ?Gu n5)"
    unfolding set_phase_calls using i(1,2) by (intro CollectI exI [of _ i]) simp
  then have in_calls: "UpdateRecords store (constructor r) (n5 + i) \<in> set (new_calls w w')"
    unfolding nc set_append by blast
  have in_arr: "r \<in> set (array_at w' (n5 + i))"
    using read_copy [OF r5 i(1)] i(3) by simp
  have no_sc: "ShouldCommit r rel' \<notin> set (new_calls w w')" for rel'
  proof
    assume "ShouldCommit r rel' \<in> set (new_calls w w')"
    moreover have "ShouldCommit r rel'
        \<notin> set (phase_calls CreateRecords store (groups_of (created cd)) n3)"
      by (rule not_in_phase_calls) simp
    moreover have "ShouldCommit r rel' \<notin> set (phase_calls UpdateRecords store ?Gu n5)"
      by (rule not_in_phase_calls) simp
    moreover have "ShouldCommit r rel'
        \<notin> set (phase_calls DeleteRecords store (groups_of (deleted cd)) n7)"
      by (rule not_in_phase_calls) simp
    ultimately have "ShouldCommit r rel' \<in> set (concat (map (filter_calls sc store rel) (updated cd)))"
      unfolding nc set_append by blast
    from shouldCommit_in_filter_calls [OF this] d show False by simp
  qed
  from in_calls in_arr no_sc show ?thesis unfolding cw by blast
qed

text \<open>
  C2. For a record of \<open>commitDetails.updated\<close> that is clean and for which
  \<open>shouldCommit\<close> answers false, \<open>store.didUpdateRecord\<close> is called as many times as the
  record occurs in \<open>commitDetails.updated\<close>, that is once when \<open>commitDetails.updated\<close> is
  a set, and the record is in the array of no \<open>updateRecords\<close> call.
\<close>

theorem commit_clean_record_skipped:
  fixes w :: "('st, 'v, 'rel) world"
  assumes r: "r \<in> set (updated cd)" and d: "\<not> isDirty r" and s: "\<not> sc r rel"
  shows "count_list (new_calls w (commit sc store cd rel w)) (DidUpdateRecord store r)
           = count_list (updated cd) r
       \<and> (distinct (updated cd) \<longrightarrow>
            count_list (new_calls w (commit sc store cd rel w)) (DidUpdateRecord store r) = 1)
       \<and> (\<forall>s' t a. UpdateRecords s' t a \<in> set (new_calls w (commit sc store cd rel w)) \<longrightarrow>
            r \<notin> set (array_at (commit sc store cd rel w) a))"
proof -
  obtain arr mc mu md w' where ci: "commit_internal sc store cd rel w = ((arr, mc, mu, md), w')"
    and cw: "commit sc store cd rel w = w'"
    by (rule commit_internal_cases)
  let ?Gu = "groups_of (kept sc rel (updated cd))"
  from commit_summary [OF ci] obtain n3 n5 n7 where
    nc: "new_calls w w' = concat (map (filter_calls sc store rel) (updated cd))
         @ phase_calls CreateRecords store (groups_of (created cd)) n3
         @ phase_calls UpdateRecords store ?Gu n5
         @ phase_calls DeleteRecords store (groups_of (deleted cd)) n7"
    and r5: "map (array_at w') [n5..<n5 + length ?Gu] = map snd ?Gu"
    by (elim exE conjE)
  have cnt_f: "count_list (filter (\<lambda>x. \<not> isDirty x \<and> \<not> sc x rel) xs) r = count_list xs r" for xs
    using d s by (induction xs) auto
  have z: "count_list (phase_calls C store G n) (DidUpdateRecord store r) = 0"
    if "\<And>s t a. C s t a \<noteq> DidUpdateRecord store r" for C G n
    using that by (rule count_list_phase_calls)
  have cnt: "count_list (new_calls w w') (DidUpdateRecord store r) = count_list (updated cd) r"
    unfolding nc by (simp add: count_list_filter_calls cnt_f z)
  have once: "count_list (new_calls w w') (DidUpdateRecord store r) = 1" if "distinct (updated cd)"
    using cnt count_list_distinct [OF that r] by simp
  have notin: "r \<notin> set (array_at w' a)" if u: "UpdateRecords s' t a \<in> set (new_calls w w')" for s' t a
  proof -
    let ?u = "UpdateRecords s' t a :: ('st, 'v, 'rel) call"
    have "?u \<notin> set (concat (map (filter_calls sc store rel) (updated cd)))"
      by (auto simp: filter_calls_def split: if_splits)
    moreover have "?u
        \<notin> set (phase_calls CreateRecords store (groups_of (created cd)) n3)"
      by (rule not_in_phase_calls) simp
    moreover have "?u
        \<notin> set (phase_calls DeleteRecords store (groups_of (deleted cd)) n7)"
      by (rule not_in_phase_calls) simp
    ultimately have "?u \<in> set (phase_calls UpdateRecords store ?Gu n5)"
      using u unfolding nc set_append by blast
    then obtain i where i: "i < length ?Gu" "a = n5 + i"
      unfolding set_phase_calls by auto
    have "set (array_at w' a) \<subseteq> set (kept sc rel (updated cd))"
      using read_copy [OF r5 i(1)] groups_of_subset [OF i(1)] by (simp add: i(2))
    moreover have "r \<notin> set (kept sc rel (updated cd))"
      using d s by (simp add: kept_def)
    ultimately show ?thesis by blast
  qed
  from cnt once notin show ?thesis unfolding cw by blast
qed

text \<open>
  C4. The batched calls of \<open>commit\<close>, with the arrays they are given, are in this order:
  \<open>createRecords\<close> once for each group of \<open>commitDetails.created\<close>, the types in
  first-seen order, then \<open>updateRecords\<close> once for each group of the filtered updated
  records, then \<open>deleteRecords\<close> once for each group of \<open>commitDetails.deleted\<close>. Each
  call is given a copy: its array holds the records of the group, as the array of the
  grouping does, and is another array, one that did not exist before \<open>commit\<close>, that is
  given to no other call, and that is neither \<open>updated\<close> nor an array of one of the three
  groupings.
\<close>

theorem commit_batched_calls_in_order:
  fixes w :: "('st, 'v, 'rel) world"
  assumes ci: "commit_internal sc store cd rel w = ((arr, mc, mu, md), w')"
  shows "commit sc store cd rel w = w'
       \<and> batches w' (new_calls w w')
           = map (\<lambda>g. CreateBatch store (fst g) (snd g)) (groups_of (created cd))
             @ map (\<lambda>g. UpdateBatch store (fst g) (snd g)) (groups_of (kept sc rel (updated cd)))
             @ map (\<lambda>g. DeleteBatch store (fst g) (snd g)) (groups_of (deleted cd))
       \<and> view w' mc = groups_of (created cd)
       \<and> view w' mu = groups_of (kept sc rel (updated cd))
       \<and> view w' md = groups_of (deleted cd)
       \<and> distinct (List.map_filter batch_addr (new_calls w w'))
       \<and> (\<forall>a \<in> set (List.map_filter batch_addr (new_calls w w')).
            length (heap w) \<le> a \<and> a \<noteq> arr
            \<and> a \<notin> snd ` set mc \<and> a \<notin> snd ` set mu \<and> a \<notin> snd ` set md)"
proof -
  let ?Gc = "groups_of (created cd)"
  let ?Gu = "groups_of (kept sc rel (updated cd))"
  let ?Gd = "groups_of (deleted cd)"
  from commit_summary [OF ci] obtain n3 n5 n7 where
    nc: "new_calls w w' = concat (map (filter_calls sc store rel) (updated cd))
         @ phase_calls CreateRecords store ?Gc n3
         @ phase_calls UpdateRecords store ?Gu n5
         @ phase_calls DeleteRecords store ?Gd n7"
    and arr: "arr = length (heap w)" "arr < n3"
    and ord: "n3 + length ?Gc \<le> n5" "n5 + length ?Gu \<le> n7"
    and rc: "\<forall>a \<in> snd ` set mc. arr < a \<and> a < n3"
    and ru: "\<forall>a \<in> snd ` set mu. n3 + length ?Gc \<le> a \<and> a < n5"
    and rd: "\<forall>a \<in> snd ` set md. n5 + length ?Gu \<le> a \<and> a < n7"
    and r3: "map (array_at w') [n3..<n3 + length ?Gc] = map snd ?Gc"
    and r5: "map (array_at w') [n5..<n5 + length ?Gu] = map snd ?Gu"
    and r7: "map (array_at w') [n7..<n7 + length ?Gd] = map snd ?Gd"
    and v: "view w' mc = ?Gc" "view w' mu = ?Gu" "view w' md = ?Gd"
    by (elim exE conjE)
  have cw: "commit sc store cd rel w = w'"
    by (simp add: commit_def ci)
  have b: "batches w' (new_calls w w')
      = map (\<lambda>g. CreateBatch store (fst g) (snd g)) ?Gc
        @ map (\<lambda>g. UpdateBatch store (fst g) (snd g)) ?Gu
        @ map (\<lambda>g. DeleteBatch store (fst g) (snd g)) ?Gd"
    unfolding nc batches_append
    by (simp only: batches_filter_calls append_Nil
        batches_phase_calls [of CreateRecords CreateBatch, OF _ r3]
        batches_phase_calls [of UpdateRecords UpdateBatch, OF _ r5]
        batches_phase_calls [of DeleteRecords DeleteBatch, OF _ r7] batch_of.simps)
  have ad: "List.map_filter batch_addr (new_calls w w')
      = [n3..<n3 + length ?Gc] @ [n5..<n5 + length ?Gu] @ [n7..<n7 + length ?Gd]"
    unfolding nc map_filter_append
    by (simp only: batch_addr_filter_calls append_Nil
        batch_addr_phase_calls [of CreateRecords] batch_addr_phase_calls [of UpdateRecords]
        batch_addr_phase_calls [of DeleteRecords] batch_addr.simps)
  have d: "distinct (List.map_filter batch_addr (new_calls w w'))"
    unfolding ad using ord by auto
  have f: "length (heap w) \<le> a \<and> a \<noteq> arr
      \<and> a \<notin> snd ` set mc \<and> a \<notin> snd ` set mu \<and> a \<notin> snd ` set md"
    if "a \<in> set (List.map_filter batch_addr (new_calls w w'))" for a
  proof -
    from that have a: "n3 \<le> a \<and> a < n3 + length ?Gc \<or> n5 \<le> a \<and> a < n5 + length ?Gu
        \<or> n7 \<le> a \<and> a < n7 + length ?Gd"
      unfolding ad by auto
    have "length (heap w) \<le> a" "a \<noteq> arr" using a arr ord by auto
    moreover have "a \<notin> snd ` set mc" using a rc ord by fastforce
    moreover have "a \<notin> snd ` set mu" using a ru ord by fastforce
    moreover have "a \<notin> snd ` set md" using a rd ord by fastforce
    ultimately show ?thesis by blast
  qed
  from cw b v d f show ?thesis by blast
qed

lemma phase_calls_Nil [simp]: "phase_calls C store [] n = []"
  by (simp add: phase_calls_def)

lemma groups_of_Nil [simp]: "groups_of [] = []"
  by (simp add: groups_of_def)

lemma updated_type_filter_calls:
  "List.map_filter updated_type (concat (map (filter_calls sc store rel) xs)) = []"
  by (induction xs) (simp_all add: List.map_filter_def filter_calls_def)

lemma updated_type_phase_calls:
  "List.map_filter updated_type (phase_calls UpdateRecords store G n) = map fst G"
proof -
  have "List.map_filter updated_type (phase_calls UpdateRecords store G n)
      = map fst (zip (map fst G) [n..<n + length G])"
    by (simp add: phase_calls_def List.map_filter_def comp_def)
  then show ?thesis by simp
qed

lemma count_list_distinct_if:
  "distinct xs \<Longrightarrow> count_list xs x = (if x \<in> set xs then 1 else 0)"
  by (simp add: count_list_distinct count_list_0_iff)

lemma post_type_neq_comment_type: "post_type \<noteq> comment_type \<and> comment_type \<noteq> post_type"
  by (simp add: post_type_def comment_type_def)

text \<open>
  C5. With \<open>created\<close> and \<open>deleted\<close> empty, the types \<open>updateRecords\<close> is called for are the
  distinct types of the filtered updated records, in first-seen order: \<open>updateRecords\<close> is
  called once for every type present among them and for no other type, and
  \<open>createRecords\<close> and \<open>deleteRecords\<close> are not called.
\<close>

theorem commit_only_updates:
  fixes w :: "('st, 'v, 'rel) world"
  assumes c: "created cd = []" and d: "deleted cd = []"
  shows "List.map_filter updated_type (new_calls w (commit sc store cd rel w))
           = first_seen (map constructor (kept sc rel (updated cd)))
       \<and> (\<forall>t. count_list (List.map_filter updated_type (new_calls w (commit sc store cd rel w))) t
              = (if t \<in> constructor ` set (kept sc rel (updated cd)) then 1 else 0))
       \<and> (\<forall>s t a. CreateRecords s t a \<notin> set (new_calls w (commit sc store cd rel w))
              \<and> DeleteRecords s t a \<notin> set (new_calls w (commit sc store cd rel w)))"
proof -
  obtain arr mc mu md w' where ci: "commit_internal sc store cd rel w = ((arr, mc, mu, md), w')"
    and cw: "commit sc store cd rel w = w'"
    by (rule commit_internal_cases)
  let ?Gu = "groups_of (kept sc rel (updated cd))"
  from commit_summary [OF ci] obtain n3 n5 n7 where
    "new_calls w w' = concat (map (filter_calls sc store rel) (updated cd))
         @ phase_calls CreateRecords store (groups_of (created cd)) n3
         @ phase_calls UpdateRecords store ?Gu n5
         @ phase_calls DeleteRecords store (groups_of (deleted cd)) n7"
    by (elim exE conjE)
  then have nc: "new_calls w w' = concat (map (filter_calls sc store rel) (updated cd))
         @ phase_calls UpdateRecords store ?Gu n5"
    by (simp add: c d)
  have ts: "List.map_filter updated_type (new_calls w w')
      = first_seen (map constructor (kept sc rel (updated cd)))"
    unfolding nc map_filter_append
    by (simp add: updated_type_filter_calls updated_type_phase_calls groups_of_def comp_def)
  have cnt: "count_list (List.map_filter updated_type (new_calls w w')) t
      = (if t \<in> constructor ` set (kept sc rel (updated cd)) then 1 else 0)" for t
    unfolding ts using count_list_distinct_if [of "first_seen (map constructor (kept sc rel (updated cd)))" t]
    by simp
  have no: "CreateRecords s t a \<notin> set (new_calls w w') \<and> DeleteRecords s t a \<notin> set (new_calls w w')"
    for s t a
  proof -
    let ?c = "CreateRecords s t a :: ('st, 'v, 'rel) call"
    let ?d = "DeleteRecords s t a :: ('st, 'v, 'rel) call"
    have "?c \<notin> set (concat (map (filter_calls sc store rel) (updated cd)))"
      "?d \<notin> set (concat (map (filter_calls sc store rel) (updated cd)))"
      by (auto simp: filter_calls_def split: if_splits)
    moreover have "?c \<notin> set (phase_calls UpdateRecords store ?Gu n5)"
      by (rule not_in_phase_calls) simp
    moreover have "?d \<notin> set (phase_calls UpdateRecords store ?Gu n5)"
      by (rule not_in_phase_calls) simp
    ultimately show ?thesis unfolding nc set_append by blast
  qed
  from ts cnt no show ?thesis unfolding cw by blast
qed

theorem commit_only_updates_witness:
  "created example_updates = [] \<and> deleted example_updates = []
   \<and> List.map_filter updated_type
         (new_calls empty_world (commit example_sc () example_updates () empty_world))
       = [post_type, comment_type]"
proof -
  have c: "created example_updates = []" and d: "deleted example_updates = []"
    by (simp_all add: example_updates_def)
  have k: "first_seen (map constructor (kept example_sc () (updated example_updates)))
      = [post_type, comment_type]"
    using post_type_neq_comment_type
    by (simp add: example_updates_def kept_def example_sc_def new_record_def)
  from commit_only_updates [OF c d, of empty_world example_sc "()" "()"]
  show ?thesis using c d k by simp
qed

theorem commit_dirty_record_queued_witness:
  "new_record 2 post_type True \<in> set (updated example_commit)
   \<and> isDirty (new_record 2 post_type True)
   \<and> (\<exists>a. UpdateRecords () post_type a
            \<in> set (new_calls empty_world (commit example_sc () example_commit () empty_world))
          \<and> new_record 2 post_type True
            \<in> set (array_at (commit example_sc () example_commit () empty_world) a))"
proof -
  have r: "new_record 2 post_type True \<in> set (updated example_commit)"
    by (simp add: example_commit_def)
  have d: "isDirty (new_record 2 post_type True)"
    by (simp add: new_record_def)
  have t: "constructor (new_record 2 post_type True) = post_type"
    by (simp add: new_record_def)
  from commit_dirty_record_queued [OF r d, of "()" empty_world example_sc "()"]
  show ?thesis using r d unfolding t by blast
qed

theorem commit_clean_record_skipped_witness:
  "new_record 3 comment_type False \<in> set (updated example_commit)
   \<and> \<not> isDirty (new_record 3 comment_type False)
   \<and> \<not> example_sc (new_record 3 comment_type False) ()
   \<and> count_list (new_calls empty_world (commit example_sc () example_commit () empty_world))
       (DidUpdateRecord () (new_record 3 comment_type False)) = 1"
proof -
  have r: "new_record 3 comment_type False \<in> set (updated example_commit)"
    by (simp add: example_commit_def)
  have d: "\<not> isDirty (new_record 3 comment_type False)"
    by (simp add: new_record_def)
  have s: "\<not> example_sc (new_record 3 comment_type False) ()"
    by (simp add: example_sc_def new_record_def)
  have u: "distinct (updated example_commit)"
    by (simp add: example_commit_def new_record_def)
  from commit_clean_record_skipped [where sc = example_sc and rel = "()" and store = "()"
      and w = empty_world, OF r d s]
  show ?thesis using r d s u by blast
qed

theorem commit_batched_calls_in_order_witness:
  "commit_internal example_sc () example_commit () empty_world
     = ((0, [(post_type, 1)], [(post_type, 3), (comment_type, 4)], [(post_type, 7)]),
        example_committed)
   \<and> batches example_committed (new_calls empty_world example_committed)
     = [CreateBatch () post_type [new_record 1 post_type True],
        UpdateBatch () post_type [new_record 2 post_type True],
        UpdateBatch () comment_type [new_record 4 comment_type False],
        DeleteBatch () post_type [new_record 5 post_type False]]
   \<and> List.map_filter batch_addr (new_calls empty_world example_committed) = [2, 5, 6, 8]"
proof -
  note ne = post_type_neq_comment_type
  have ci: "commit_internal example_sc () example_commit () empty_world
     = ((0, [(post_type, 1)], [(post_type, 3), (comment_type, 4)], [(post_type, 7)]),
        example_committed)"
    using ne
    by (simp add: commit_internal_def new_array_def commit_updated_step_def emit_def
        pushObject_def array_at_def groupByType_def groupByType_step_def map_get_def
        batch_step_def slice_def example_sc_def example_commit_def example_committed_def
        empty_world_def new_record_def Let_def)
  have g: "groups_of (created example_commit) = [(post_type, [new_record 1 post_type True])]"
    "groups_of (kept example_sc () (updated example_commit))
       = [(post_type, [new_record 2 post_type True]),
          (comment_type, [new_record 4 comment_type False])]"
    "groups_of (deleted example_commit) = [(post_type, [new_record 5 post_type False])]"
    using ne
    by (simp_all add: groups_of_def kept_def example_commit_def example_sc_def new_record_def)
  have a: "List.map_filter batch_addr (new_calls empty_world example_committed) = [2, 5, 6, 8]"
    by (simp add: new_calls_def example_committed_def empty_world_def List.map_filter_def)
  from commit_batched_calls_in_order [OF ci] show ?thesis
    using ci a by (simp add: g)
qed

end
